theory Spec2Isabelle
  imports Main "HOL-Library.Char_ord" "HOL-Library.List_Lexorder" "HOL-Library.AList"
begin

section \<open>ldep: object-file dependency analysis (src/ldep.c)\<close>

text \<open>
  The C program is embedded function by function. Objects (\<open>ObjF\<close>) are numbered by
  their position in the chain that starts at \<open>fileListHead\<close>; position 0 is the static
  \<open>undefSymPod\<close>. A symbol pointer (\<open>Sym\<close>) is the symbol's name, which is its key in
  \<open>symTbl\<close>. A cross-reference pointer (\<open>Xref\<close>) is the pair of the owning object and the
  position of the cell in that object's \<open>exports\<close> or \<open>imports\<close> array. The chains threaded
  through \<open>multiuse\<close> (a symbol's \<open>exportedBy\<close> and \<open>importedFrom\<close>) and through
  \<open>link.next\<close> (a link set) are read as the lists of their cells, head first. The \<open>work\<close>
  slot of an object is kept as the pointer it is. C strings are \<open>string\<close>s without the
  terminating NUL.
\<close>

subsection \<open>Errors\<close>

datatype error =
    IllFormedName         \<comment> \<open>\<open>createObj\<close>: \<open>exit(1)\<close> after \<open>splitName\<close> returned 0\<close>
  | BufferOverrun         \<comment> \<open>\<open>scan_file\<close>: "Scanner buffer overrun", \<open>return -1\<close>\<close>
  | NotColonTerminated    \<comment> \<open>\<open>scan_file\<close>: file name line without ':', \<open>return -1\<close>\<close>
  | UnknownSymbolType     \<comment> \<open>\<open>scan_file\<close>: label \<open>bail\<close>, \<open>return -1\<close>\<close>
  | AssertFailed string   \<comment> \<open>the \<open>assert\<close> of this expression fails: \<open>abort()\<close>\<close>
  | NullDeref             \<comment> \<open>a null pointer is dereferenced\<close>
  | OutOfFuel             \<comment> \<open>only of the model: the recursion bound was too small\<close>

subsection \<open>Strings\<close>

text \<open>\<open>strrchr(s, c)\<close> and \<open>strchr(s, c)\<close>: the offset of the last (first) \<open>c\<close> in \<open>s\<close>.\<close>

primrec strrchr :: "string \<Rightarrow> char \<Rightarrow> nat option" where
  "strrchr [] c = None"
| "strrchr (x # xs) c =
     (case strrchr xs c of
        Some i \<Rightarrow> Some (Suc i)
      | None \<Rightarrow> if x = c then Some 0 else None)"

primrec strchr :: "string \<Rightarrow> char \<Rightarrow> nat option" where
  "strchr [] c = None"
| "strchr (x # xs) c =
     (if x = c then Some 0 else map_option Suc (strchr xs c))"

text \<open>
  \<open>splitName(name, &po, &pc)\<close>. The result \<open>None\<close> is the return value 0 (ill-formed
  name). Otherwise the pair is \<open>(po, rval)\<close>: \<open>po\<close> is the offset of the bracket that was
  overwritten by NUL (\<open>*ppo\<close>, or \<open>None\<close> for the null pointer) and \<open>rval\<close> the returned
  string. After the two NULs are written, \<open>name\<close> itself reads as \<open>take po name\<close>.
\<close>

definition splitName :: "string \<Rightarrow> (nat option \<times> string) option" where
  "splitName name =
     (let l = length name in
      if l > 0 \<and> name ! (l - 1) = CHR '']'' then
        (case strrchr name CHR ''['' of
           None \<Rightarrow> None
         | Some po \<Rightarrow> Some (Some po, take (l - 1 - (po + 1)) (drop (po + 1) name)))
      else Some (None, name))"

text \<open>The library path and the member name that \<open>createObj\<close> and \<open>fileListFind\<close> read
  off a split name: \<open>name\<close> up to the NUL at \<open>po\<close>, and \<open>rval\<close>.\<close>

definition splitLib :: "string \<Rightarrow> (string option \<times> string) option" where
  "splitLib name =
     (case splitName name of
        None \<Rightarrow> None
      | Some (None, objn) \<Rightarrow> Some (None, objn)
      | Some (Some po, objn) \<Rightarrow> Some (Some (take po name), objn))"

text \<open>The split as the specification words it: the library path is the substring before
  the \<^emph>\<open>first\<close> opening bracket.\<close>

definition spec_library_path :: "string \<Rightarrow> string" where
  "spec_library_path name = takeWhile (\<lambda>c. c \<noteq> CHR ''['') name"

subsection \<open>The data structures\<close>

text \<open>The three \<open>LinkSetRec\<close> objects; a \<open>LinkSet\<close> pointer is one of them or null.\<close>

datatype LinkSet = appLinkSet | undefLinkSet | optionalLinkSet

text \<open>A \<open>Lib\<close> pointer: null, the address \<open>MATCH_ANY\<close>, or a \<open>LibRec\<close>, named by its
  \<open>name\<close> (\<open>libAddObj\<close> keeps the names of the libraries distinct).\<close>

datatype Lib = LibNull | MATCH_ANY | LibPtr string

text \<open>The \<open>work\<close> slot of an object: null, the address \<open>BUSY\<close>, or an object.\<close>

datatype WorkPtr = WorkNull | BUSY | WorkObj nat

record XrefRec =
  xsym :: string       \<comment> \<open>\<open>sym\<close>\<close>
  xobj :: nat          \<comment> \<open>\<open>obj\<close>\<close>
  xweak :: bool        \<comment> \<open>\<open>XREF_WEAK\<close>: the low bit of \<open>multiuse\<close>\<close>

record ObjFRec =
  obj_name :: string
  obj_lib :: Lib
  link_anchor :: "LinkSet option"
  work :: WorkPtr
  obj_exports :: "XrefRec list"
  obj_imports :: "XrefRec list"

record LibRec =
  lib_name :: string
  lib_files :: "nat list"

type_synonym xref = "nat \<times> nat"

record SymRec =
  sym_type :: char                \<comment> \<open>\<open>TYPE(sym)\<close>, stored at \<open>name[-1]\<close>\<close>
  exportedBy :: "xref list"       \<comment> \<open>cells of \<open>exports\<close> arrays\<close>
  importedFrom :: "xref list"     \<comment> \<open>cells of \<open>imports\<close> arrays\<close>

text \<open>What the program writes to \<open>stderr\<close>, as far as the properties below speak of it.\<close>

datatype message =
    SymbolWithoutObject                 \<comment> \<open>"Warning: Symbol without object file??"\<close>
  | TypeMismatch string char char       \<comment> \<open>"type mismatch ...: known as %c, is now %c"\<close>
  | UndefinedSymbol string string       \<comment> \<open>"Warning: symbol %s:%s undefined"\<close>

text \<open>The global variables. \<open>symTbl\<close> is the search tree of \<open>tsearch\<close>, kept as the list
  of its nodes in \<open>twalk\<close> order, that is sorted by \<open>strcmp\<close> on the names.
  \<open>depwalkMode\<close> is split into its two bits.\<close>

record state =
  fileList :: "ObjFRec list"
  libList :: "LibRec list"
  fileListIndex :: "nat list"     \<comment> \<open>the array of \<open>numFiles\<close> object pointers\<close>
  symTbl :: "(string \<times> SymRec) list"
  linkSet :: "LinkSet \<Rightarrow> nat list"
  walkBuildList :: bool           \<comment> \<open>\<open>depwalkMode & WALK_BUILD_LIST\<close>\<close>
  walkExports :: bool             \<comment> \<open>\<open>depwalkMode & WALK_EXPORTS\<close>\<close>
  depwalkAction :: bool           \<comment> \<open>\<open>depwalkAction\<close> is not null (then it is \<open>depPrint\<close>)\<close>
  printed :: "(nat \<times> nat) list"   \<comment> \<open>the calls \<open>depPrint(f, depth, _)\<close>, in order\<close>
  warnings :: "message list"      \<comment> \<open>the warnings written to \<open>stderr\<close>, in order\<close>

definition undefSymPod :: ObjFRec where
  "undefSymPod =
     \<lparr>obj_name = ''<UNDEFINED>'', obj_lib = LibNull, link_anchor = Some undefLinkSet,
      work = WorkNull, obj_exports = [], obj_imports = []\<rparr>"

definition init_state :: state where
  "init_state =
     \<lparr>fileList = [undefSymPod], libList = [], fileListIndex = [], symTbl = [],
      linkSet = (\<lambda>a. if a = undefLinkSet then [0] else []),
      walkBuildList = False, walkExports = False, depwalkAction = False, printed = [],
      warnings = []\<rparr>"

subsection \<open>Creating objects and libraries\<close>

definition createLib :: "string \<Rightarrow> state \<Rightarrow> state" where
  "createLib libname st =
     st\<lparr>libList := libList st @ [\<lparr>lib_name = libname, lib_files = []\<rparr>]\<rparr>"

text \<open>\<open>libAddObj(libname, obj)\<close>: the library is the first one of that name, created at
  the tail of the list when there is none; the sanity check asserts that no member of
  the library has the name of \<open>obj\<close>.\<close>

definition libAddObj :: "string \<Rightarrow> nat \<Rightarrow> state \<Rightarrow> error + state" where
  "libAddObj libname obj st =
     (let st1 = (if libname \<in> set (map lib_name (libList st)) then st
                 else createLib libname st);
          i = length (takeWhile (\<lambda>l. lib_name l \<noteq> libname) (libList st1));
          l = libList st1 ! i
      in if obj_name (fileList st1 ! obj) \<in> set (map (\<lambda>m. obj_name (fileList st1 ! m)) (lib_files l))
         then Inl (AssertFailed ''strcmp(l->files[i]->name, obj->name)'')
         else Inr (st1\<lparr>libList := (libList st1)[i := l\<lparr>lib_files := lib_files l @ [obj]\<rparr>],
                        fileList := (fileList st1)[obj := (fileList st1 ! obj)\<lparr>obj_lib := LibPtr libname\<rparr>]\<rparr>))"

text \<open>\<open>createObj(name)\<close> returns the new object, the last of the list.\<close>

definition createObj :: "string \<Rightarrow> state \<Rightarrow> error + (state \<times> nat)" where
  "createObj name st =
     (case splitName name of
        None \<Rightarrow> Inl IllFormedName
      | Some (po, objn) \<Rightarrow>
          (let obj = length (fileList st);
               st1 = st\<lparr>fileList := fileList st @
                       [\<lparr>obj_name = objn, obj_lib = LibNull, link_anchor = None,
                         work = WorkNull, obj_exports = [], obj_imports = []\<rparr>]\<rparr>
           in case po of
                None \<Rightarrow> Inr (st1, obj)
              | Some p \<Rightarrow>
                  (case libAddObj (take p name) obj st1 of
                     Inl e \<Rightarrow> Inl e
                   | Inr st2 \<Rightarrow> Inr (st2, obj))))"

subsection \<open>Looking an object up by name\<close>

text \<open>\<open>strcmp\<close> compares the bytes as unsigned characters; only the sign of its result is
  used by the program.\<close>

definition strcmp :: "string \<Rightarrow> string \<Rightarrow> int" where
  "strcmp a b = (if a < b then - 1 else if a = b then 0 else 1)"

definition objcmp :: "ObjFRec \<Rightarrow> ObjFRec \<Rightarrow> int" where
  "objcmp obja objb =
     (let rval = strcmp (obj_name obja) (obj_name objb) in
      if rval \<noteq> 0 then rval
      else if obj_lib obja = MATCH_ANY \<or> obj_lib objb = MATCH_ANY then 0
      else (case obj_lib obja of
              LibPtr la \<Rightarrow>
                (case obj_lib objb of
                   LibPtr lb \<Rightarrow> strcmp la lb
                 | _ \<Rightarrow> 1)
            | _ \<Rightarrow> (if obj_lib objb \<noteq> LibNull then - 1 else 0)))"

text \<open>\<open>bsearch\<close> of the C library, as the usual bisection over the positions \<open>l..<u\<close>;
  \<open>compar i\<close> is the comparison of the key with the element at position \<open>i\<close>.\<close>

function bsearch :: "(nat \<Rightarrow> int) \<Rightarrow> nat \<Rightarrow> nat \<Rightarrow> nat option" where
  "bsearch compar l u =
     (if l < u then
        (let idx = (l + u) div 2; c = compar idx in
         if c < 0 then bsearch compar l idx
         else if c > 0 then bsearch compar (idx + 1) u
         else Some idx)
      else None)"
  by pat_completeness auto
termination
  by (relation "measure (\<lambda>(compar, l, u). u - l)") auto

text \<open>The two loops of \<open>fileListFind\<close> that widen a match to the run of all matches:
  \<open>while (++end < fileListIndex + numFiles && !objcmp(&f, end))\<close> and
  \<open>while (--found >= fileListIndex && !objcmp(&f, found))\<close> followed by \<open>found++\<close>.\<close>

function find_end :: "(nat \<Rightarrow> int) \<Rightarrow> nat \<Rightarrow> nat \<Rightarrow> nat" where
  "find_end compar n e =
     (if Suc e < n \<and> compar (Suc e) = 0 then find_end compar n (Suc e) else Suc e)"
  by pat_completeness auto
termination
  by (relation "measure (\<lambda>(compar, n, e). n - e)") auto

fun find_start :: "(nat \<Rightarrow> int) \<Rightarrow> nat \<Rightarrow> nat" where
  "find_start compar 0 = 0"
| "find_start compar (Suc found) =
     (if compar found = 0 then find_start compar found else Suc found)"

text \<open>The search key that \<open>fileListFind\<close> builds in \<open>frec\<close>: \<open>None\<close> when the name is
  ill-formed or names a library that does not exist.\<close>

definition find_key :: "state \<Rightarrow> string \<Rightarrow> ObjFRec option" where
  "find_key st name =
     (case splitName name of
        None \<Rightarrow> None
      | Some (po, objn) \<Rightarrow>
          (let frec = \<lparr>obj_name = objn, obj_lib = LibNull, link_anchor = None,
                       work = WorkNull, obj_exports = [], obj_imports = []\<rparr>
           in case po of
                Some (Suc p) \<Rightarrow>
                  (if take (Suc p) name \<in> set (map lib_name (libList st))
                   then Some (frec\<lparr>obj_lib := LibPtr (take (Suc p) name)\<rparr>)
                   else None)
              | _ \<Rightarrow> Some (frec\<lparr>obj_lib := MATCH_ANY\<rparr>)))"

text \<open>\<open>fileListFind(name, &pfound)\<close> returns the pair of \<open>rval\<close> and the position
  \<open>*pfound\<close> in \<open>fileListIndex\<close> (which is not set when \<open>rval\<close> is 0).\<close>

definition fileListFind :: "state \<Rightarrow> string \<Rightarrow> nat \<times> nat option" where
  "fileListFind st name =
     (case find_key st name of
        None \<Rightarrow> (0, None)
      | Some f \<Rightarrow>
          (let compar = (\<lambda>i. objcmp f (fileList st ! (fileListIndex st ! i)));
               numFiles = length (fileListIndex st)
           in case bsearch compar 0 numFiles of
                None \<Rightarrow> (0, None)
              | Some found \<Rightarrow>
                  (let end = find_end compar numFiles found;
                       found' = find_start compar found
                   in (end - found', Some found'))))"

text \<open>The objects a caller reads from the result: \<open>pobj[0]\<close>, ..., \<open>pobj[rval - 1]\<close>.\<close>

definition found_objs :: "state \<Rightarrow> string \<Rightarrow> nat list" where
  "found_objs st name =
     (case fileListFind st name of
        (rval, Some found) \<Rightarrow> take rval (drop found (fileListIndex st))
      | (rval, None) \<Rightarrow> [])"

declare bsearch.simps [simp del] find_end.simps [simp del]

text \<open>\<open>fileListBuildIndex\<close> sorts the array of all objects with \<open>qsort\<close> and \<open>objcmp\<close>.
  \<open>qsort\<close> is given here as an insertion sort; the properties below only use that the
  array is ordered by the object names, which every sort by \<open>objcmp\<close> yields.\<close>

fun qsort_insert :: "ObjFRec list \<Rightarrow> nat \<Rightarrow> nat list \<Rightarrow> nat list" where
  "qsort_insert fl x [] = [x]"
| "qsort_insert fl x (y # ys) =
     (if objcmp (fl ! x) (fl ! y) \<le> 0 then x # y # ys else y # qsort_insert fl x ys)"

definition fileListBuildIndex :: "state \<Rightarrow> nat list" where
  "fileListBuildIndex st =
     foldr (qsort_insert (fileList st)) [0..<length (fileList st)] []"

text \<open>An example: the static pod, \<open>libc.a[printf.o]\<close>, \<open>printf.o\<close> and
  \<open>libmine.a[printf.o]\<close>, with the index built.\<close>

definition example_libs :: state where
  "example_libs =
     (let st = init_state\<lparr>
            fileList := [undefSymPod,
              \<lparr>obj_name = ''printf.o'', obj_lib = LibPtr ''libc.a'', link_anchor = None,
               work = WorkNull, obj_exports = [], obj_imports = []\<rparr>,
              \<lparr>obj_name = ''printf.o'', obj_lib = LibNull, link_anchor = None,
               work = WorkNull, obj_exports = [], obj_imports = []\<rparr>,
              \<lparr>obj_name = ''printf.o'', obj_lib = LibPtr ''libmine.a'', link_anchor = None,
               work = WorkNull, obj_exports = [], obj_imports = []\<rparr>],
            libList := [\<lparr>lib_name = ''libc.a'', lib_files = [1]\<rparr>,
                        \<lparr>lib_name = ''libmine.a'', lib_files = [3]\<rparr>]\<rparr>
      in st\<lparr>fileListIndex := fileListBuildIndex st\<rparr>)"

subsection \<open>Reading a line: \<open>fscanf\<close> with \<open>THEFMT\<close>\<close>

definition MAXBUF :: nat where
  "MAXBUF = 500"

definition isspace :: "char \<Rightarrow> bool" where
  "isspace c = (c = CHR '' '' \<or> c = CHR 0x09 \<or> c = CHR 0x0A \<or> c = CHR 0x0B
                \<or> c = CHR 0x0C \<or> c = CHR 0x0D)"

definition isblank :: "char \<Rightarrow> bool" where
  "isblank c = (c = CHR '' '' \<or> c = CHR 0x09)"

text \<open>What \<open>fscanf(f, THEFMT, buf, &type)\<close> assigned: the value 1 (only \<open>buf\<close>) or 2
  (\<open>buf\<close> and \<open>type\<close>). The format starts with \<open>%500s\<close>, which has no matching
  failure, so the value is never 0: it is \<open>EOF\<close> (here \<open>None\<close>), 1 or 2, and the
  \<open>default\<close> case of the \<open>switch\<close> on it is never taken.\<close>

datatype scanned = Conv1 string | Conv2 string char

text \<open>
  \<open>THEFMT\<close> is \<open>"%500s%*[ \t]%c%*[^\n]\n"\<close>. \<open>%500s\<close> skips white space and stores at
  most 500 bytes that are not white space; \<open>%*[ \t]\<close> needs at least one blank or tab,
  \<open>%c\<close> stores the next byte, \<open>%*[^\n]\<close> needs at least one byte that is not a newline, and
  the final \<open>\n\<close> skips white space. The conversion stops at the first directive that
  fails. The second component of the result is the rest of the stream.
\<close>

definition fscanf_THEFMT :: "string \<Rightarrow> (scanned \<times> string) option" where
  "fscanf_THEFMT inp =
     (let i1 = dropWhile isspace inp in
      if i1 = [] then None
      else
        (let buf = take MAXBUF (takeWhile (\<lambda>c. \<not> isspace c) i1);
             i2 = drop (length buf) i1;
             i3 = dropWhile isblank i2
         in if i3 = i2 then Some (Conv1 buf, i2)
            else (case i3 of
                    [] \<Rightarrow> Some (Conv1 buf, [])
                  | type # i4 \<Rightarrow>
                      (let i5 = dropWhile (\<lambda>c. c \<noteq> CHR 0x0A) i4
                       in if i5 = i4 then Some (Conv2 buf type, i4)
                          else Some (Conv2 buf type, dropWhile isspace i5)))))"

text \<open>The name that a conversion stored in \<open>buf\<close>.\<close>

fun scanned_buf :: "scanned \<Rightarrow> string" where
  "scanned_buf (Conv1 buf) = buf"
| "scanned_buf (Conv2 buf type) = buf"

text \<open>
  \<open>scan_file\<close> declares \<open>char buf[MAXBUF+1]\<close> and tags the end of the buffer with
  \<open>buf[MAXBUF] = 'X'\<close>. \<open>%500s\<close> writes the bytes of the name and a NUL after them, so
  after the call \<open>buf[MAXBUF]\<close> is NUL exactly when the name stored has \<open>MAXBUF\<close> bytes:
  this is the test \<open>!buf[MAXBUF]\<close>.
\<close>

definition tag_overwritten :: "string \<Rightarrow> bool" where
  "tag_overwritten buf = (length buf = MAXBUF)"

subsection \<open>The symbol table\<close>

text \<open>\<open>tsearch\<close> inserts a new node at its place in the order of \<open>symcmp\<close>.\<close>

fun tsearch_insert :: "string \<Rightarrow> SymRec \<Rightarrow> (string \<times> SymRec) list \<Rightarrow> (string \<times> SymRec) list" where
  "tsearch_insert k v [] = [(k, v)]"
| "tsearch_insert k v ((k', v') # t) =
     (if k < k' then (k, v) # (k', v') # t else (k', v') # tsearch_insert k v t)"

definition tfind :: "state \<Rightarrow> string \<Rightarrow> SymRec option" where
  "tfind st n = map_of (symTbl st) n"

text \<open>An assignment through a \<open>Sym\<close> pointer.\<close>

definition sym_modify :: "string \<Rightarrow> (SymRec \<Rightarrow> SymRec) \<Rightarrow> state \<Rightarrow> state" where
  "sym_modify n f st = st\<lparr>symTbl := AList.map_entry n f (symTbl st)\<rparr>"

text \<open>Reading the two chains of a symbol.\<close>

definition sym_exportedBy :: "state \<Rightarrow> string \<Rightarrow> xref list" where
  "sym_exportedBy st n = (case tfind st n of None \<Rightarrow> [] | Some s \<Rightarrow> exportedBy s)"

definition sym_importedFrom :: "state \<Rightarrow> string \<Rightarrow> xref list" where
  "sym_importedFrom st n = (case tfind st n of None \<Rightarrow> [] | Some s \<Rightarrow> importedFrom s)"

text \<open>The stored type of a symbol, when the symbol is in the table.\<close>

definition sym_type_of :: "state \<Rightarrow> string \<Rightarrow> char option" where
  "sym_type_of st n = map_option sym_type (tfind st n)"

text \<open>An assignment through an \<open>ObjF\<close> pointer.\<close>

definition obj_modify :: "nat \<Rightarrow> (ObjFRec \<Rightarrow> ObjFRec) \<Rightarrow> state \<Rightarrow> state" where
  "obj_modify f g st = st\<lparr>fileList := (fileList st)[f := g (fileList st ! f)]\<rparr>"

subsection \<open>\<open>fixupObj\<close>\<close>

text \<open>For each cell of the export array in turn, the cell is appended to the chain
  \<open>exportedBy\<close> of its symbol.\<close>

definition fixup_export :: "nat \<Rightarrow> nat \<Rightarrow> state \<Rightarrow> state" where
  "fixup_export f i st =
     sym_modify (xsym (obj_exports (fileList st ! f) ! i))
       (\<lambda>s. s\<lparr>exportedBy := exportedBy s @ [(f, i)]\<rparr>) st"

definition fixupObj :: "nat option \<Rightarrow> state \<Rightarrow> state" where
  "fixupObj f st =
     (case f of
        None \<Rightarrow> st
      | Some f \<Rightarrow> fold (fixup_export f) [0..<length (obj_exports (fileList st ! f))] st)"

subsection \<open>\<open>scan_file\<close>\<close>

definition toupper :: "char \<Rightarrow> char" where
  "toupper c =
     (if CHR ''a'' \<le> c \<and> c \<le> CHR ''z'' then char_of (of_char c - (32::nat)) else c)"

definition TOUPPER :: "bool \<Rightarrow> char \<Rightarrow> char" where
  "TOUPPER force ch = (if force then toupper ch else ch)"

text \<open>The name of the object that is made up for a symbol without an object file: the
  name of the symbol file with \<open>.o\<close> appended or with its extension replaced.\<close>

definition substitute_name :: "string \<Rightarrow> string" where
  "substitute_name name =
     (case strrchr name CHR ''.'' of
        None \<Rightarrow> name @ ''.o''
      | Some dot \<Rightarrow>
          (case strchr name CHR ''/'' of
             None \<Rightarrow> take (dot + 1) name @ ''o''
           | Some slash \<Rightarrow>
               if slash > dot then name @ ''.o'' else take (dot + 1) name @ ''o''))"

text \<open>The symbol is looked up with \<open>tsearch\<close>. A new symbol gets the type of the record. An
  existing symbol whose type differs from the record's: the warning is written when
  neither type is \<open>U\<close>, and the type is overwritten when the stored type is \<open>U\<close>.\<close>

definition intern_sym :: "string \<Rightarrow> char \<Rightarrow> state \<Rightarrow> state" where
  "intern_sym buf type st =
     (case tfind st buf of
        None \<Rightarrow>
          st\<lparr>symTbl := tsearch_insert buf
                \<lparr>sym_type = type, exportedBy = [], importedFrom = []\<rparr> (symTbl st)\<rparr>
      | Some found \<Rightarrow>
          if type \<noteq> sym_type found then
            (let warn = (CHR ''U'' \<noteq> sym_type found \<and> CHR ''U'' \<noteq> type);
                 st1 = (if warn
                        then st\<lparr>warnings := warnings st @ [TypeMismatch buf (sym_type found) type]\<rparr>
                        else st);
                 override = (CHR ''U'' = sym_type found)
             in if override then sym_modify buf (\<lambda>s. s\<lparr>sym_type := type\<rparr>) st1 else st1)
          else st)"

definition add_export :: "nat \<Rightarrow> string \<Rightarrow> bool \<Rightarrow> state \<Rightarrow> state" where
  "add_export obj s weak st =
     obj_modify obj
       (\<lambda>f. f\<lparr>obj_exports := obj_exports f @ [\<lparr>xsym = s, xobj = obj, xweak = weak\<rparr>]\<rparr>) st"

definition add_import :: "nat \<Rightarrow> string \<Rightarrow> state \<Rightarrow> state" where
  "add_import obj s st =
     obj_modify obj
       (\<lambda>f. f\<lparr>obj_imports := obj_imports f @ [\<lparr>xsym = s, xobj = obj, xweak = False\<rparr>]\<rparr>) st"

text \<open>The \<open>switch\<close> on the type of the record.\<close>

definition classify :: "bool \<Rightarrow> nat \<Rightarrow> string \<Rightarrow> char \<Rightarrow> state \<Rightarrow> error + state" where
  "classify force obj s type st =
     (let t = TOUPPER force type in
      if t = CHR ''W'' \<or> t = CHR ''V'' then Inr (add_export obj s True st)
      else if t = CHR ''D'' \<or> t = CHR ''T'' \<or> t = CHR ''B'' \<or> t = CHR ''R''
            \<or> t = CHR ''G'' \<or> t = CHR ''S'' \<or> t = CHR ''A'' \<or> t = CHR ''C''
        then Inr (add_export obj s False st)
      else if t = CHR ''?'' then
        (if \<not> force then Inl UnknownSymbolType else Inr (add_import obj s st))
      else if t = CHR ''U'' then Inr (add_import obj s st)
      else Inl UnknownSymbolType)"

text \<open>\<open>case 2\<close> of the loop: a symbol record (\<open>buf\<close>, \<open>type\<close>) for the current object
  \<open>obj\<close>. The result carries the current object.\<close>

definition scan_symbol ::
  "bool \<Rightarrow> string \<Rightarrow> nat option \<Rightarrow> string \<Rightarrow> char \<Rightarrow> state \<Rightarrow> error + (state \<times> nat option)" where
  "scan_symbol force name obj buf type st =
     (case (case obj of
              Some f \<Rightarrow> Inr (st, f)
            | None \<Rightarrow>
                createObj (substitute_name name)
                  (st\<lparr>warnings := warnings st @ [SymbolWithoutObject]\<rparr>)) of
        Inl e \<Rightarrow> Inl e
      | Inr (st1, f) \<Rightarrow>
          (let type' = TOUPPER force type;
               st2 = intern_sym buf type' st1
           in case classify force f buf type' st2 of
                Inl e \<Rightarrow> Inl e
              | Inr st3 \<Rightarrow> Inr (st3, Some f)))"

text \<open>\<open>case 1\<close> of the loop: a file name line.\<close>

definition scan_header :: "nat option \<Rightarrow> string \<Rightarrow> state \<Rightarrow> error + (state \<times> nat option)" where
  "scan_header obj buf st =
     (if last buf \<noteq> CHR '':'' then Inl NotColonTerminated
      else (case createObj (butlast buf) (fixupObj obj st) of
              Inl e \<Rightarrow> Inl e
            | Inr (st', f) \<Rightarrow> Inr (st', Some f)))"

text \<open>The body of the loop for one record: the test of the tag, then the \<open>switch\<close>.\<close>

definition scan_record ::
  "bool \<Rightarrow> string \<Rightarrow> nat option \<Rightarrow> scanned \<Rightarrow> state \<Rightarrow> error + (state \<times> nat option)" where
  "scan_record force name obj r st =
     (case r of
        Conv1 buf \<Rightarrow>
          if tag_overwritten buf then Inl BufferOverrun else scan_header obj buf st
      | Conv2 buf type \<Rightarrow>
          if tag_overwritten buf then Inl BufferOverrun
          else scan_symbol force name obj buf type st)"

lemma fscanf_buf_nonempty:
  assumes "dropWhile isspace inp \<noteq> []"
  shows "take MAXBUF (takeWhile (\<lambda>c. \<not> isspace c) (dropWhile isspace inp)) \<noteq> []"
proof -
  from assms have "\<not> isspace (hd (dropWhile isspace inp))"
    by (rule hd_dropWhile)
  with assms have "takeWhile (\<lambda>c. \<not> isspace c) (dropWhile isspace inp) \<noteq> []"
    by (cases "dropWhile isspace inp") auto
  then show ?thesis by (simp add: MAXBUF_def)
qed

lemma fscanf_rest:
  assumes "fscanf_THEFMT inp = Some (r, rest)"
  shows "length rest < length inp"
proof -
  define i1 where "i1 = dropWhile isspace inp"
  define buf where "buf = take MAXBUF (takeWhile (\<lambda>c. \<not> isspace c) i1)"
  define i2 where "i2 = drop (length buf) i1"
  define i3 where "i3 = dropWhile isblank i2"
  have eq: "fscanf_THEFMT inp =
     (if i1 = [] then None
      else if i3 = i2 then Some (Conv1 buf, i2)
      else (case i3 of
              [] \<Rightarrow> Some (Conv1 buf, [])
            | type # i4 \<Rightarrow>
                (let i5 = dropWhile (\<lambda>c. c \<noteq> CHR 0x0A) i4
                 in if i5 = i4 then Some (Conv2 buf type, i4)
                    else Some (Conv2 buf type, dropWhile isspace i5))))"
    unfolding fscanf_THEFMT_def Let_def i1_def buf_def i2_def i3_def by (rule refl)
  from assms eq have ne: "i1 \<noteq> []"
    by (auto split: if_splits)
  have "length buf \<le> length i1"
    unfolding buf_def using length_takeWhile_le [of "\<lambda>c. \<not> isspace c" i1] by simp
  moreover have "buf \<noteq> []"
    unfolding buf_def i1_def using ne [unfolded i1_def] by (rule fscanf_buf_nonempty)
  ultimately have 2: "length i2 < length i1"
    unfolding i2_def using ne by (cases buf) auto
  have 1: "length i1 \<le> length inp"
    unfolding i1_def by (rule length_dropWhile_le)
  have 3: "length i3 \<le> length i2"
    unfolding i3_def by (rule length_dropWhile_le)
  have "length rest \<le> length i2"
  proof (cases "i3 = i2")
    case True
    with assms eq ne show ?thesis by simp
  next
    case False
    show ?thesis
    proof (cases i3)
      case Nil
      with assms eq ne False show ?thesis by simp
    next
      case (Cons t i4)
      have 5: "length (dropWhile (\<lambda>c. c \<noteq> CHR 0x0A) i4) \<le> length i4"
        by (rule length_dropWhile_le)
      have 6: "length (dropWhile isspace (dropWhile (\<lambda>c. c \<noteq> CHR 0x0A) i4)) \<le> length i4"
        by (rule le_trans [OF length_dropWhile_le 5])
      from 3 Cons have 4: "length i4 \<le> length i2" by simp
      from assms eq ne False Cons
      have "rest = i4 \<or> rest = dropWhile isspace (dropWhile (\<lambda>c. c \<noteq> CHR 0x0A) i4)"
        by (simp add: Let_def split: if_splits)
      with 4 6 show ?thesis by auto
    qed
  qed
  with 1 2 show ?thesis by simp
qed

text \<open>The loop \<open>while (EOF != (got = fscanf(f, THEFMT, buf, &type)))\<close> of \<open>scan_file\<close>,
  and after it \<open>fixupObj(obj)\<close> and \<open>return 0\<close>.\<close>

function scan_loop :: "bool \<Rightarrow> string \<Rightarrow> nat option \<Rightarrow> string \<Rightarrow> state \<Rightarrow> error + state" where
  "scan_loop force name obj inp st =
     (case fscanf_THEFMT inp of
        None \<Rightarrow> Inr (fixupObj obj st)
      | Some (r, rest) \<Rightarrow>
          (case scan_record force name obj r st of
             Inl e \<Rightarrow> Inl e
           | Inr (st', obj') \<Rightarrow> scan_loop force name obj' rest st'))"
  by pat_completeness auto
termination
  by (relation "measure (\<lambda>(force, name, obj, inp, st). length inp)")
     (auto dest: fscanf_rest)

declare scan_loop.simps [simp del]

definition scan_file :: "bool \<Rightarrow> string \<Rightarrow> string \<Rightarrow> state \<Rightarrow> error + state" where
  "scan_file force name inp st = scan_loop force name None inp st"

subsection \<open>\<open>main\<close>: reading the files\<close>

text \<open>The \<open>do\<close> loop of \<open>main\<close> over the symbol files, each given by its name and its
  contents (the single file \<open><stdin>\<close> when there is no argument). \<open>lastAppObj\<close> is set
  after the first file to \<open>fileListTail\<close>, the last object of the list.\<close>

fun scan_files ::
  "bool \<Rightarrow> (string \<times> string) list \<Rightarrow> nat option \<Rightarrow> state \<Rightarrow> error + (state \<times> nat option)" where
  "scan_files force [] lastAppObj st = Inr (st, lastAppObj)"
| "scan_files force ((nm, inp) # files) lastAppObj st =
     (case scan_file force nm inp st of
        Inl e \<Rightarrow> Inl e
      | Inr st' \<Rightarrow>
          scan_files force files
            (case lastAppObj of
               None \<Rightarrow> Some (length (fileList st') - 1)
             | Some l \<Rightarrow> Some l)
            st')"

subsection \<open>Example inputs\<close>

definition newline :: string where
  "newline = [CHR 0x0A]"

text \<open>What \<open>scan_file\<close> leaves of a symbol file, read into the initial state.\<close>

definition scanned :: "bool \<Rightarrow> string \<Rightarrow> state" where
  "scanned force inp =
     (case scan_file force ''nm.out'' inp init_state of Inl e \<Rightarrow> init_state | Inr st \<Rightarrow> st)"


definition example_files :: "(string \<times> string) list" where
  "example_files =
     [(''app.nm'', ''a.o:'' @ newline @ ''foo T'' @ newline @ ''bar U'' @ newline),
      (''opt.nm'', ''b.o:'' @ newline @ ''bar T'' @ newline @ ''foo T'' @ newline)]"

text \<open>An empty file of mandatory objects followed by a file with one optional object.\<close>

definition example_no_mandatory :: "(string \<times> string) list" where
  "example_no_mandatory =
     [(''app.nm'', ''''),
      (''opt.nm'', ''b.o:'' @ newline @ ''foo T'' @ newline)]"

text \<open>Three mandatory objects: \<open>y.o\<close> and \<open>z.o\<close> define \<open>A\<close> and \<open>B\<close>, \<open>x.o\<close> defines
  \<open>A\<close>.\<close>

definition example_clashes :: "(string \<times> string) list" where
  "example_clashes =
     [(''app.nm'',
       ''y.o:'' @ newline @ ''A T'' @ newline @ ''B T'' @ newline @
       ''z.o:'' @ newline @ ''A T'' @ newline @ ''B T'' @ newline @
       ''x.o:'' @ newline @ ''A T'' @ newline)]"

subsection \<open>The cells of the export arrays\<close>

text \<open>The cells of the export array of an object in the order of the array, the cells
  of the first \<open>k\<close> objects in the order of the object list (the order in which the
  objects were read), and the symbol of a cell.\<close>

definition obj_cells :: "state \<Rightarrow> nat \<Rightarrow> xref list" where
  "obj_cells st f = map (Pair f) [0..<length (obj_exports (fileList st ! f))]"

definition export_cells :: "state \<Rightarrow> nat \<Rightarrow> xref list" where
  "export_cells st k = concat (map (obj_cells st) [0..<k])"

definition cell_sym :: "state \<Rightarrow> xref \<Rightarrow> string" where
  "cell_sym st x = xsym (obj_exports (fileList st ! fst x) ! snd x)"

text \<open>The first \<open>k\<close> objects are fixed up: the chain \<open>exportedBy\<close> of every symbol holds
  the cells of these objects that export it, each once, in their order; and the symbol
  of every cell of an export array is in the table.\<close>

definition fixed_up :: "state \<Rightarrow> nat \<Rightarrow> bool" where
  "fixed_up st k \<longleftrightarrow>
     k \<le> length (fileList st) \<and>
     (\<forall>n. sym_exportedBy st n = filter (\<lambda>x. cell_sym st x = n) (export_cells st k)) \<and>
     (\<forall>f<length (fileList st). \<forall>c\<in>set (obj_exports (fileList st ! f)). tfind st (xsym c) \<noteq> None)"

text \<open>The same for the state of the loop of \<open>scan_file\<close>, where the current object, the
  last of the list, is not fixed up yet.\<close>

definition scanning :: "state \<Rightarrow> nat option \<Rightarrow> bool" where
  "scanning st obj =
     (case obj of
        None \<Rightarrow> fixed_up st (length (fileList st))
      | Some f \<Rightarrow> Suc f = length (fileList st) \<and> fixed_up st f)"

subsection \<open>Loops whose body can fail\<close>

text \<open>A \<open>for\<close> loop over a list whose body either fails, which ends the program, or
  returns the next state.\<close>

fun foldE :: "('a \<Rightarrow> 's \<Rightarrow> error + 's) \<Rightarrow> 'a list \<Rightarrow> 's \<Rightarrow> error + 's" where
  "foldE body [] st = Inr st"
| "foldE body (x # xs) st =
     (case body x st of
        Inl e \<Rightarrow> Inl e
      | Inr st' \<Rightarrow> foldE body xs st')"

subsection \<open>\<open>gatherDanglingUndefs\<close>\<close>

text \<open>\<open>twalk\<close> visits the symbols in the order of the table; a symbol that no object
  exports becomes an export of \<open>undefSymPod\<close>, the object 0, which is fixed up at the end.\<close>

definition gatherDanglingUndefsAct :: "string \<Rightarrow> state \<Rightarrow> state" where
  "gatherDanglingUndefsAct n st =
     (if sym_exportedBy st n = [] then add_export 0 n False st else st)"

definition gatherDanglingUndefs :: "state \<Rightarrow> state" where
  "gatherDanglingUndefs st =
     fixupObj (Some 0) (fold gatherDanglingUndefsAct (map fst (symTbl st)) st)"

subsection \<open>\<open>linkObj\<close>\<close>

text \<open>\<open>ref->obj\<close>: the object that owns the cell. \<open>scan_file\<close> stores there the object
  into whose array it puts the cell, and nothing writes the field again (this is what
  \<open>checkObjPtrs\<close> tests), so the owner is read off the address of the cell.\<close>

definition xref_obj :: "xref \<Rightarrow> nat" where
  "xref_obj r = fst r"

text \<open>\<open>XREF_NEXT(x)\<close> for a cell \<open>x\<close> and the chain it may be on: the cell after it, null
  when \<open>x\<close> is the last cell of the chain or is not on it.\<close>

fun xref_next :: "xref list \<Rightarrow> xref \<Rightarrow> xref option" where
  "xref_next [] x = None"
| "xref_next [y] x = None"
| "xref_next (y # z # l) x = (if y = x then Some z else xref_next (z # l) x)"

definition anchor :: "state \<Rightarrow> nat \<Rightarrow> LinkSet option" where
  "anchor st f = link_anchor (fileList st ! f)"

text \<open>The body of the loop of \<open>linkObj\<close> for the import \<open>i\<close> of \<open>f\<close>; \<open>rec\<close> is the
  recursive call.\<close>

definition link_import ::
  "(nat \<Rightarrow> state \<Rightarrow> error + state) \<Rightarrow> nat \<Rightarrow> nat \<Rightarrow> state \<Rightarrow> error + state" where
  "link_import rec f i st =
     (let imp = (f, i); n = xsym (obj_imports (fileList st ! f) ! i) in
      if xref_next (sym_importedFrom st n) imp \<noteq> None
      then Inl (AssertFailed ''0 == XREF_NEXT(imp)'')
      else (case tfind st n of
              None \<Rightarrow> Inl (AssertFailed ''found = tfind(imp->sym, &symTbl, symcmp)'')
            | Some found \<Rightarrow>
                (let st1 = sym_modify n (\<lambda>s. s\<lparr>importedFrom := imp # importedFrom s\<rparr>) st in
                 case exportedBy found of
                   [] \<Rightarrow>
                     Inr (st1\<lparr>warnings := warnings st1 @
                                [UndefinedSymbol (obj_name (fileList st1 ! f)) n]\<rparr>)
                 | e # es \<Rightarrow>
                     (let dep = xref_obj e in
                      if anchor st1 f \<noteq> None \<and> anchor st1 dep = None
                      then rec dep (obj_modify dep (\<lambda>d. d\<lparr>link_anchor := anchor st1 f\<rparr>) st1)
                      else Inr st1))))"

text \<open>\<open>linkObj(f, symname)\<close>. The first argument bounds the depth of the recursion.\<close>

primrec linkObj :: "nat \<Rightarrow> nat \<Rightarrow> state \<Rightarrow> error + state" where
  "linkObj 0 f st = Inl OutOfFuel"
| "linkObj (Suc fuel) f st =
     (if anchor st f = None then Inl (AssertFailed ''f->link.anchor'')
      else (case foldE (link_import (linkObj fuel) f)
                   [0..<length (obj_imports (fileList st ! f))] st of
              Inl e \<Rightarrow> Inl e
            | Inr st' \<Rightarrow>
                (case anchor st' f of
                   None \<Rightarrow> Inl NullDeref
                 | Some a \<Rightarrow> Inr (st'\<lparr>linkSet := (linkSet st')(a := f # linkSet st' a)\<rparr>))))"

subsection \<open>\<open>main\<close>: linking\<close>

text \<open>The loop of \<open>main\<close> over the objects after \<open>undefSymPod\<close>, with the variable
  \<open>linkSet\<close>. Every recursion of \<open>linkObj\<close> puts one more object into a link set, so the
  number of objects bounds its depth.\<close>

definition link_step ::
  "nat option \<Rightarrow> nat \<Rightarrow> state \<times> LinkSet \<Rightarrow> error + state \<times> LinkSet" where
  "link_step lastAppObj f sl =
     (case sl of (st, ls) \<Rightarrow>
        (case (if anchor st f = None
               then linkObj (length (fileList st)) f
                      (obj_modify f (\<lambda>d. d\<lparr>link_anchor := Some ls\<rparr>) st)
               else Inr st) of
           Inl e \<Rightarrow> Inl e
         | Inr st' \<Rightarrow> Inr (st', if Some f = lastAppObj then optionalLinkSet else ls)))"

definition link_all :: "nat option \<Rightarrow> state \<Rightarrow> error + state" where
  "link_all lastAppObj st =
     (case foldE (link_step lastAppObj) [1..<length (fileList st)] (st, appLinkSet) of
        Inl e \<Rightarrow> Inl e
      | Inr (st', ls) \<Rightarrow> Inr st')"

definition checkObjPtrs :: "state \<Rightarrow> nat" where
  "checkObjPtrs st =
     length (filter (\<lambda>(f, c). xobj c \<noteq> f)
       (concat (map (\<lambda>f. map (Pair f) (obj_exports (fileList st ! f) @ obj_imports (fileList st ! f)))
          [0..<length (fileList st)])))"

text \<open>\<open>main\<close> up to the end of the linking loop.\<close>

definition main_link :: "bool \<Rightarrow> (string \<times> string) list \<Rightarrow> error + state" where
  "main_link force files =
     (case scan_files force files None init_state of
        Inl e \<Rightarrow> Inl e
      | Inr (st, lastAppObj) \<Rightarrow>
          (let st1 = gatherDanglingUndefs st;
               st2 = st1\<lparr>fileListIndex := fileListBuildIndex st1\<rparr>
           in if checkObjPtrs st2 \<noteq> 0 then Inl (AssertFailed ''0 == checkObjPtrs()'')
              else link_all lastAppObj st2))"

subsection \<open>The traversal engine: \<open>depwalk\<close>\<close>

definition set_work :: "nat \<Rightarrow> WorkPtr \<Rightarrow> state \<Rightarrow> state" where
  "set_work f w st = obj_modify f (\<lambda>d. d\<lparr>work := w\<rparr>) st"

definition work_of :: "state \<Rightarrow> nat \<Rightarrow> WorkPtr" where
  "work_of st f = work (fileList st ! f)"

text \<open>The objects \<open>ref->obj\<close> that the two nested loops of \<open>depwalk_rec(f, _)\<close> come to, in
  their order: with \<open>DO_EXPORTS\<close> the owners of all the cells on the chain \<open>importedFrom\<close>
  of each exported symbol, otherwise the owner of the first cell of the chain
  \<open>exportedBy\<close> of each imported symbol. The traversal writes \<open>work\<close> slots only, so the
  chains are the same whenever they are read.\<close>

definition walk_targets :: "state \<Rightarrow> nat \<Rightarrow> nat list" where
  "walk_targets st f =
     (if walkExports st
      then concat (map (\<lambda>c. map xref_obj (sym_importedFrom st (xsym c)))
                     (obj_exports (fileList st ! f)))
      else concat (map (\<lambda>c. map xref_obj (take 1 (sym_exportedBy st (xsym c))))
                     (obj_imports (fileList st ! f))))"

text \<open>The objects that \<open>workListIterate(f, _, _)\<close> visits, starting from the pointer \<open>p\<close>:
  the chain through the \<open>work\<close> slots up to a null pointer or \<open>BUSY\<close>. The first argument
  bounds the number of objects; \<open>None\<close> says that the chain is longer.\<close>

fun workList :: "nat \<Rightarrow> state \<Rightarrow> WorkPtr \<Rightarrow> nat list option" where
  "workList fuel st WorkNull = Some []"
| "workList fuel st BUSY = Some []"
| "workList 0 st (WorkObj f) = None"
| "workList (Suc fuel) st (WorkObj f) = map_option ((#) f) (workList fuel st (work_of st f))"

text \<open>\<open>workListIterate(f, action, closure)\<close> for an action that writes no \<open>work\<close> slot
  (none of the actions of the program does): the action is called for the objects of the
  chain in turn, with their position as \<open>depth\<close>. A chain without repetition has at most
  as many objects as there are; a longer one is cyclic, and the loop of the source does
  not end.\<close>

definition workListIterate ::
  "state \<Rightarrow> nat \<Rightarrow> (nat \<Rightarrow> nat \<Rightarrow> 'a \<Rightarrow> error + 'a) \<Rightarrow> 'a \<Rightarrow> error + 'a" where
  "workListIterate st f action a =
     (case workList (length (fileList st)) st (WorkObj f) of
        None \<Rightarrow> Inl OutOfFuel
      | Some l \<Rightarrow> foldE (\<lambda>(g, depth). action g depth) (zip l [0..<length l]) a)"

text \<open>\<open>checkCircWorkList(f)\<close> with \<open>circCheckAction\<close>: \<open>- 1\<close> when \<open>f\<close> is met again at a
  depth above 0.\<close>

definition checkCircWorkList :: "state \<Rightarrow> nat \<Rightarrow> error + int" where
  "checkCircWorkList st f =
     workListIterate st f
       (\<lambda>g depth result. Inr (if depth > 0 \<and> g = f then - 1 else result)) 0"

definition depPrint :: "nat \<Rightarrow> nat \<Rightarrow> state \<Rightarrow> state" where
  "depPrint f depth st = st\<lparr>printed := printed st @ [(f, depth)]\<rparr>"

text \<open>The body of the inner loop of \<open>depwalk_rec(f, depth)\<close> for \<open>ref->obj = g\<close>; \<open>rec\<close> is
  the recursive call.\<close>

definition walk_ref ::
  "(nat \<Rightarrow> nat \<Rightarrow> state \<Rightarrow> error + state) \<Rightarrow> nat \<Rightarrow> nat \<Rightarrow> nat \<Rightarrow> state \<Rightarrow> error + state" where
  "walk_ref rec f depth g st =
     (if g = f then Inl (AssertFailed ''ref->obj != f'')
      else if work_of st g = WorkNull then
        (let st1 = set_work g (work_of st f) st;
             st2 = set_work f (WorkObj g) st1
         in case checkCircWorkList st2 f of
              Inl e \<Rightarrow> Inl e
            | Inr circ \<Rightarrow>
                if circ \<noteq> 0 then Inl (AssertFailed ''0 == checkCircWorkList(f)'')
                else (case rec g (depth + 1) st2 of
                        Inl e \<Rightarrow> Inl e
                      | Inr st3 \<Rightarrow>
                          if \<not> walkBuildList st3
                          then Inr (set_work g WorkNull (set_work f (work_of st3 g) st3))
                          else Inr st3))
      else Inr st)"

text \<open>\<open>depwalk_rec(f, depth)\<close>. The first argument bounds the depth of the recursion.\<close>

primrec depwalk_rec :: "nat \<Rightarrow> nat \<Rightarrow> nat \<Rightarrow> state \<Rightarrow> error + state" where
  "depwalk_rec 0 f depth st = Inl OutOfFuel"
| "depwalk_rec (Suc fuel) f depth st =
     (let st1 = (if depwalkAction st then depPrint f depth st else st)
      in foldE (walk_ref (depwalk_rec fuel) f depth) (walk_targets st1 f) st1)"

text \<open>\<open>depwalk(f, action, closure, mode)\<close>: \<open>action\<close> says whether the action is
  \<open>depPrint\<close> or null, and the mode is given by its two bits. Every recursion of
  \<open>depwalk_rec\<close> is for an object that was not marked and is marked now, so the number of
  objects bounds its depth.\<close>

definition depwalk :: "state \<Rightarrow> nat \<Rightarrow> bool \<Rightarrow> bool \<Rightarrow> bool \<Rightarrow> error + state" where
  "depwalk st f action build_list do_exports =
     (if work_of st f \<noteq> WorkNull then Inl (AssertFailed ''f->work == 0'')
      else if walkBuildList st then Inl (AssertFailed ''!(depwalkMode & WALK_BUILD_LIST)'')
      else
        (let st1 = st\<lparr>walkBuildList := build_list, walkExports := do_exports,
                       depwalkAction := (if build_list then False else action)\<rparr>;
             st2 = set_work f BUSY st1
         in case depwalk_rec (length (fileList st2)) f 0 st2 of
              Inl e \<Rightarrow> Inl e
            | Inr st3 \<Rightarrow>
                if walkBuildList st3 then Inr (st3\<lparr>depwalkAction := action\<rparr>)
                else Inr (set_work f WorkNull st3)))"

text \<open>\<open>workListRelease(f)\<close>: the loop clears the slot of \<open>f\<close> and goes on with the object
  that the slot pointed to. It stops at a slot that is null already, so it ends after at
  most one step more than there are objects; the bound is never reached.\<close>

primrec release_loop :: "nat \<Rightarrow> nat \<Rightarrow> state \<Rightarrow> error + state" where
  "release_loop 0 f st = Inl OutOfFuel"
| "release_loop (Suc fuel) f st =
     (let tmp = work_of st f; st1 = set_work f WorkNull st
      in case tmp of
           WorkObj g \<Rightarrow> release_loop fuel g st1
         | _ \<Rightarrow> Inr st1)"

definition workListRelease :: "nat \<Rightarrow> state \<Rightarrow> error + state" where
  "workListRelease f st = release_loop (Suc (length (fileList st))) f st"

definition depwalkListRelease :: "nat \<Rightarrow> state \<Rightarrow> error + state" where
  "depwalkListRelease f st =
     (if \<not> walkBuildList st then Inl (AssertFailed ''(depwalkMode & WALK_BUILD_LIST)'')
      else (case (if depwalkAction st
                  then workListIterate st f (\<lambda>g depth s. Inr (depPrint g depth s)) st
                  else Inr st) of
              Inl e \<Rightarrow> Inl e
            | Inr st1 \<Rightarrow>
                (case workListRelease f st1 of
                   Inl e \<Rightarrow> Inl e
                 | Inr st2 \<Rightarrow> Inr (st2\<lparr>walkBuildList := False, walkExports := False\<rparr>))))"

subsection \<open>The unlink engine\<close>






subsection \<open>\<open>checkMultipleDefs\<close>\<close>

text \<open>A name clash that is written to the log: the symbol, its type, and the objects
  that export it, each with its weak flag.\<close>

type_synonym clash = "string \<times> char \<times> (nat \<times> bool) list"

definition xref_weak :: "state \<Rightarrow> xref \<Rightarrow> bool" where
  "xref_weak st r = xweak (obj_exports (fileList st ! fst r) ! snd r)"

text \<open>The body of the loop over the exports of \<open>f\<close>.\<close>

definition check_export :: "nat \<Rightarrow> nat \<Rightarrow> state \<times> clash list \<Rightarrow> error + state \<times> clash list" where
  "check_export f i sl =
     (case sl of (st, log) \<Rightarrow>
        (let n = xsym (obj_exports (fileList st ! f) ! i) in
         case tfind st n of
           None \<Rightarrow> Inl NullDeref
         | Some s \<Rightarrow>
             (case exportedBy s of
                [] \<Rightarrow> Inl NullDeref
              | [r] \<Rightarrow> Inr (st, log)
              | r # r' # rs \<Rightarrow>
                  (let isCommon = (sym_type s = CHR ''C'');
                       log' = (if \<not> isCommon
                               then log @ [(n, sym_type s,
                                            map (\<lambda>x. (xref_obj x, xref_weak st x)) (exportedBy s))]
                               else log)
                   in Inr (fold (\<lambda>x. set_work (xref_obj x) BUSY) (exportedBy s) st, log')))))"

definition check_obj :: "nat \<Rightarrow> state \<times> clash list \<Rightarrow> error + state \<times> clash list" where
  "check_obj f sl =
     (case sl of (st, log) \<Rightarrow>
        if work_of st f = BUSY then Inr (st, log)
        else foldE (check_export f) [0..<length (obj_exports (fileList st ! f))] (st, log))"

text \<open>\<open>checkMultipleDefs(s)\<close>: the result is the state and the clashes written to the
  log; the value returned by the source is the number of these.\<close>

definition checkMultipleDefs :: "LinkSet \<Rightarrow> state \<Rightarrow> error + state \<times> clash list" where
  "checkMultipleDefs s st =
     (case foldE check_obj (linkSet st s) (st, []) of
        Inl e \<Rightarrow> Inl e
      | Inr (st', log) \<Rightarrow>
          Inr (st'\<lparr>fileList := map (\<lambda>d. d\<lparr>work := WorkNull\<rparr>) (fileList st')\<rparr>, log))"

subsection \<open>Notions for the properties of the traversal\<close>

text \<open>The state without what a traversal writes: the \<open>work\<close> slots and the output of
  \<open>depPrint\<close>.\<close>

definition unworked :: "state \<Rightarrow> state" where
  "unworked st =
     st\<lparr>fileList := map (\<lambda>d. d\<lparr>work := WorkNull\<rparr>) (fileList st), printed := []\<rparr>"

text \<open>The cells on the chains of the symbols belong to objects of the list.\<close>

definition xrefs_ok :: "state \<Rightarrow> bool" where
  "xrefs_ok st \<longleftrightarrow>
     (\<forall>n s. tfind st n = Some s \<longrightarrow>
        (\<forall>r\<in>set (exportedBy s) \<union> set (importedFrom s). xref_obj r < length (fileList st)))"

text \<open>All \<open>work\<close> slots are null.\<close>

definition work_clear :: "state \<Rightarrow> bool" where
  "work_clear st \<longleftrightarrow> (\<forall>g<length (fileList st). work_of st g = WorkNull)"

text \<open>The work list: \<open>l\<close> is the chain through the \<open>work\<close> slots from its first object
  to the slot that holds \<open>BUSY\<close>.\<close>

fun chain :: "(nat \<Rightarrow> WorkPtr) \<Rightarrow> nat list \<Rightarrow> bool" where
  "chain w [] = False"
| "chain w [x] = (w x = BUSY)"
| "chain w (x # y # l) = (w x = WorkObj y \<and> chain w (y # l))"

text \<open>\<open>l\<close> is the work list, without repetition, and the slots of all other objects are
  null.\<close>

definition work_list :: "state \<Rightarrow> nat list \<Rightarrow> bool" where
  "work_list st l \<longleftrightarrow>
     chain (work_of st) l \<and> distinct l \<and> (\<forall>g\<in>set l. g < length (fileList st)) \<and>
     (\<forall>g<length (fileList st). g \<notin> set l \<longrightarrow> work_of st g = WorkNull)"

text \<open>The list with \<open>g\<close> put in after \<open>f\<close>.\<close>

fun ins_after :: "nat \<Rightarrow> nat \<Rightarrow> nat list \<Rightarrow> nat list" where
  "ins_after f g [] = []"
| "ins_after f g (x # l) = (if x = f then x # g # l else x # ins_after f g l)"

text \<open>The edges that a traversal follows, in the mode \<open>walkExports st\<close>.\<close>

definition walk_rel :: "state \<Rightarrow> (nat \<times> nat) set" where
  "walk_rel st = {(f, g). f < length (fileList st) \<and> g \<in> set (walk_targets st f)}"

text \<open>The precondition of C10. No object exports a symbol and has a cell of its own on
  the chain \<open>importedFrom\<close> of that symbol; no object owns the first cell on the chain
  \<open>exportedBy\<close> of a symbol that it imports.\<close>

definition no_self_reference :: "state \<Rightarrow> bool" where
  "no_self_reference st \<longleftrightarrow>
     (\<forall>f<length (fileList st).
        (\<forall>c\<in>set (obj_exports (fileList st ! f)).
           \<forall>r\<in>set (sym_importedFrom st (xsym c)). xref_obj r \<noteq> f) \<and>
        (\<forall>c\<in>set (obj_imports (fileList st ! f)).
           \<forall>r\<in>set (take 1 (sym_exportedBy st (xsym c))). xref_obj r \<noteq> f))"

text \<open>Some object is among the objects that its own expansion comes to: the assertion
  \<open>ref->obj != f\<close> fails when the object is expanded.\<close>

definition self_target :: "state \<Rightarrow> bool" where
  "self_target st \<longleftrightarrow> (\<exists>g<length (fileList st). g \<in> set (walk_targets st g))"

text \<open>Some object that is reached from \<open>f\<close> along the edges of the traversal (\<open>f\<close> itself
  is) is among the objects that its own expansion comes to.\<close>

definition self_target_from :: "state \<Rightarrow> nat \<Rightarrow> bool" where
  "self_target_from st f \<longleftrightarrow>
     (\<exists>g<length (fileList st). (f, g) \<in> (walk_rel st)\<^sup>* \<and> g \<in> set (walk_targets st g))"

text \<open>The edges to objects that are not in \<open>S\<close>: without \<open>WALK_BUILD_LIST\<close> the marked
  objects are those whose expansion is going on, and these edges are followed.\<close>

definition unmarked_rel :: "state \<Rightarrow> nat set \<Rightarrow> (nat \<times> nat) set" where
  "unmarked_rel st S = {(a, b). (a, b) \<in> walk_rel st \<and> b \<notin> S}"

text \<open>The objects that came onto the work list \<open>l'\<close> since it was \<open>l\<close>, in the expansion
  of \<open>f\<close>: all that their expansion comes to is on the list, they are reached from \<open>f\<close>,
  and none of them comes to itself.\<close>

definition new_closed :: "state \<Rightarrow> nat \<Rightarrow> nat list \<Rightarrow> nat list \<Rightarrow> bool" where
  "new_closed st f l l' \<longleftrightarrow>
     (\<forall>g\<in>set l' - set l.
        set (walk_targets st g) \<subseteq> set l' \<and> (f, g) \<in> (walk_rel st)\<^sup>+ \<and>
        g \<notin> set (walk_targets st g))"

text \<open>What holds of the state \<open>st'\<close> with work list \<open>l'\<close> during and after the expansion of
  \<open>f\<close> that began in \<open>st\<close> with work list \<open>l\<close>.\<close>

definition walk_inv :: "state \<Rightarrow> nat \<Rightarrow> nat list \<Rightarrow> state \<Rightarrow> nat list \<Rightarrow> bool" where
  "walk_inv st f l st' l' \<longleftrightarrow>
     unworked st' = unworked st \<and> work_list st' l' \<and> hd l' = hd l \<and> set l \<subseteq> set l' \<and>
     (walkBuildList st \<longrightarrow> new_closed st f l l') \<and>
     (\<not> walkBuildList st \<longrightarrow> fileList st' = fileList st)"

definition walk_pre :: "nat \<Rightarrow> state \<Rightarrow> nat \<Rightarrow> nat list \<Rightarrow> bool" where
  "walk_pre fuel st f l \<longleftrightarrow>
     work_list st l \<and> f \<in> set l \<and> xrefs_ok st \<and> length (fileList st) < fuel + length l"

definition walk_post :: "state \<Rightarrow> nat \<Rightarrow> nat list \<Rightarrow> error + state \<Rightarrow> bool" where
  "walk_post st f l r =
     (case r of
        Inl e \<Rightarrow> e = AssertFailed ''ref->obj != f'' \<and> self_target_from st f
      | Inr st' \<Rightarrow>
          f \<notin> set (walk_targets st f) \<and>
          (\<exists>l'. walk_inv st f l st' l' \<and>
                (walkBuildList st \<longrightarrow> set (walk_targets st f) \<subseteq> set l')))"

text \<open>The edges of the traversal in a given mode: with \<open>do_exports\<close> from an object to
  the objects that have a linked import of one of its exports, otherwise from an object
  to the first exporters of its imports.\<close>

definition mode_rel :: "bool \<Rightarrow> state \<Rightarrow> (nat \<times> nat) set" where
  "mode_rel do_exports st = walk_rel (st\<lparr>walkExports := do_exports\<rparr>)"

subsection \<open>Example states\<close>

text \<open>Two mandatory objects that import from each other; and an object \<open>a.o\<close> that
  imports a symbol that it exports itself, and a symbol of \<open>c.o\<close>.\<close>

definition example_cycle :: "(string \<times> string) list" where
  "example_cycle =
     [(''app.nm'',
       ''a.o:'' @ newline @ ''x T'' @ newline @ ''y U'' @ newline @
       ''b.o:'' @ newline @ ''y T'' @ newline @ ''x U'' @ newline)]"



text \<open>The state after \<open>main\<close> has read and linked the files.\<close>

definition linked :: "(string \<times> string) list \<Rightarrow> state" where
  "linked files = (case main_link False files of Inl e \<Rightarrow> init_state | Inr st \<Rightarrow> st)"

subsection \<open>The rule for the stored type of a symbol\<close>

text \<open>The rule that C7 states, as the code has it: a record of type \<open>type\<close> for a symbol
  whose stored type is \<open>stored\<close> (\<open>None\<close> for a symbol that is not in the table) leaves
  this type stored, and writes this warning.\<close>

definition spec_type_update :: "char option \<Rightarrow> char \<Rightarrow> char option" where
  "spec_type_update stored type =
     (case stored of
        None \<Rightarrow> Some type
      | Some old \<Rightarrow> Some (if old = CHR ''U'' then type else old))"

definition spec_type_warning :: "string \<Rightarrow> char option \<Rightarrow> char \<Rightarrow> message list" where
  "spec_type_warning buf stored type =
     (case stored of
        None \<Rightarrow> []
      | Some old \<Rightarrow>
          if old \<noteq> CHR ''U'' \<and> type \<noteq> CHR ''U'' \<and> type \<noteq> old
          then [TypeMismatch buf old type] else [])"

text \<open>The rule applied to one record of a symbol file. The state is the stored types of
  all symbols and the warnings written, with a flag that says whether an object is
  current (with none, the scanner writes a warning of its own and makes one up).\<close>

definition spec_record ::
  "bool \<Rightarrow> scanned \<Rightarrow> bool \<times> (string \<Rightarrow> char option) \<times> message list \<Rightarrow>
   bool \<times> (string \<Rightarrow> char option) \<times> message list" where
  "spec_record force r a =
     (case a of (in_obj, types, ws) \<Rightarrow>
        (case r of
           Conv1 buf \<Rightarrow> (True, types, ws)
         | Conv2 buf type \<Rightarrow>
             (True,
              types(buf := spec_type_update (types buf) (TOUPPER force type)),
              ws @ (if in_obj then [] else [SymbolWithoutObject])
                 @ spec_type_warning buf (types buf) (TOUPPER force type))))"








section \<open>Properties\<close>

subsection \<open>Lemmas on the string functions\<close>

lemma strrchr_None: "strrchr s c = None \<longleftrightarrow> c \<notin> set s"
  by (induction s) (auto split: option.splits)

lemma strrchr_Some:
  "strrchr s c = Some i \<Longrightarrow> i < length s \<and> s ! i = c \<and> c \<notin> set (drop (Suc i) s)"
proof (induction s arbitrary: i)
  case Nil
  then show ?case by simp
next
  case (Cons x xs)
  show ?case
  proof (cases "strrchr xs c")
    case None
    with Cons.prems have "x = c" "i = 0"
      by (auto split: if_splits)
    moreover from None have "c \<notin> set xs"
      by (simp add: strrchr_None)
    ultimately show ?thesis by simp
  next
    case (Some j)
    with Cons.prems have i: "i = Suc j" by simp
    from Cons.IH [OF Some] show ?thesis
      by (simp add: i)
  qed
qed

lemma splitName_bracket:
  assumes "name \<noteq> []" and "last name = CHR '']''" and "CHR ''['' \<in> set name"
  shows "\<exists>po. splitName name = Some (Some po, take (length name - 1 - (po + 1)) (drop (po + 1) name))
            \<and> po < length name - 1 \<and> name ! po = CHR ''[''
            \<and> CHR ''['' \<notin> set (drop (Suc po) name)"
proof -
  from assms(3) obtain po where po: "strrchr name CHR ''['' = Some po"
    by (cases "strrchr name CHR ''[''") (auto simp: strrchr_None)
  from strrchr_Some [OF po] have p: "po < length name" "name ! po = CHR ''[''"
    "CHR ''['' \<notin> set (drop (Suc po) name)" by auto
  from assms have l: "name ! (length name - 1) = CHR '']''"
    by (simp add: last_conv_nth)
  with p have "po \<noteq> length name - 1" by auto
  with p have "po < length name - 1" by simp
  with po p l assms(1) show ?thesis
    by (simp add: splitName_def)
qed

lemma split_pieces:
  assumes "po < length name - 1" and "name ! po = b" and "last name = c"
  shows "name = take po name @ b # take (length name - 1 - (po + 1)) (drop (po + 1) name) @ [c]"
proof -
  let ?r = "drop (Suc po) name"
  from assms(1) have ne: "?r \<noteq> []" by simp
  have "name = take po name @ name ! po # ?r"
    using assms(1) by (simp add: id_take_nth_drop [symmetric])
  moreover have "?r = butlast ?r @ [last ?r]"
    using ne by (rule append_butlast_last_id [symmetric])
  moreover have "last ?r = last name"
    using ne assms(1) by (simp add: last_drop)
  moreover have "butlast ?r = take (length name - 1 - (po + 1)) (drop (po + 1) name)"
    by (simp add: butlast_conv_take)
  ultimately show ?thesis
    using assms(2,3) by simp
qed

lemma splitLib_bracket:
  assumes "name \<noteq> []" and "last name = CHR '']''" and "CHR ''['' \<in> set name"
  shows "\<exists>lib member. splitLib name = Some (Some lib, member)
            \<and> name = lib @ CHR ''['' # member @ [CHR '']'']
            \<and> CHR ''['' \<notin> set member"
proof -
  from splitName_bracket [OF assms] obtain po where
    sn: "splitName name = Some (Some po, take (length name - 1 - (po + 1)) (drop (po + 1) name))"
    and po: "po < length name - 1" "name ! po = CHR ''[''"
    and nb: "CHR ''['' \<notin> set (drop (Suc po) name)"
    by blast
  let ?m = "take (length name - 1 - (po + 1)) (drop (po + 1) name)"
  have "splitLib name = Some (Some (take po name), ?m)"
    by (simp add: splitLib_def sn)
  moreover have "name = take po name @ CHR ''['' # ?m @ [CHR '']'']"
    using split_pieces [OF po(1) po(2) assms(2)] .
  moreover have "CHR ''['' \<notin> set ?m"
    using nb by (auto dest: in_set_takeD)
  ultimately show ?thesis by blast
qed

lemma splitName_ill_formed:
  "name \<noteq> [] \<Longrightarrow> last name = CHR '']'' \<Longrightarrow> CHR ''['' \<notin> set name \<Longrightarrow> splitName name = None"
  by (simp add: splitName_def last_conv_nth strrchr_None [symmetric])

lemma splitName_plain:
  "name = [] \<or> last name \<noteq> CHR '']'' \<Longrightarrow> splitName name = Some (None, name)"
  by (cases "name = []") (auto simp: splitName_def Let_def last_conv_nth)

lemma libAddObj_fileList:
  assumes "libAddObj libname obj st = Inr st'"
  shows "fileList st' = (fileList st)[obj := (fileList st ! obj)\<lparr>obj_lib := LibPtr libname\<rparr>]"
  using assms by (auto simp: libAddObj_def createLib_def Let_def split: if_splits)

lemma createObj_library:
  assumes "createObj name st = Inr (st', obj)"
    and "splitName name = Some (Some po, objn)"
  shows "obj = length (fileList st) \<and> length (fileList st') = Suc (length (fileList st))
         \<and> obj_name (fileList st' ! obj) = objn
         \<and> obj_lib (fileList st' ! obj) = LibPtr (take po name)
         \<and> take (length (fileList st)) (fileList st') = fileList st"
  using assms
  by (auto simp: createObj_def Let_def nth_append split: sum.splits dest!: libAddObj_fileList)

lemma createObj_plain:
  assumes "splitName name = Some (None, objn)"
  shows "createObj name st =
     Inr (st\<lparr>fileList := fileList st @
               [\<lparr>obj_name = objn, obj_lib = LibNull, link_anchor = None,
                 work = WorkNull, obj_exports = [], obj_imports = []\<rparr>]\<rparr>,
          length (fileList st))"
  using assms by (simp add: createObj_def Let_def)

subsection \<open>Splitting an object-header name\<close>

text \<open>
  C3, as the specification states it, fails: the library path is not the substring before
  the \<^emph>\<open>first\<close> opening bracket. \<open>splitName\<close> looks for the bracket with \<open>strrchr\<close>, so
  for the header name \<open>a[b[c]\<close> the library is \<open>a[b\<close> and the member is \<open>c\<close>, whereas the
  substring before the first bracket is \<open>a\<close>.
\<close>

theorem splitName_first_bracket_counterexample:
  "splitLib ''a[b[c]'' = Some (Some ''a[b'', ''c'') \<and> spec_library_path ''a[b[c]'' = ''a''"
  by (simp add: splitLib_def splitName_def spec_library_path_def)

text \<open>
  C3, amended: a raw name that ends in \<open>]\<close> and contains an opening bracket is split at
  its \<^emph>\<open>last\<close> opening bracket: the substring before that bracket is the library path, and
  the substring between that bracket and the final \<open>]\<close> (which therefore contains no
  opening bracket) is the member name; \<open>createObj\<close>, when it returns, has given the new
  object that member name and that library. A raw name that ends in \<open>]\<close> and contains no
  opening bracket is ill-formed: \<open>splitName\<close> returns 0 and \<open>createObj\<close> exits. A name that
  does not end in \<open>]\<close> (the empty name too) has no library: the object gets the whole name
  and a null library pointer.
\<close>

theorem splitName_last_bracket:
  "(name \<noteq> [] \<and> last name = CHR '']'' \<and> CHR ''['' \<in> set name \<longrightarrow>
      (\<exists>lib member. name = lib @ CHR ''['' # member @ [CHR '']''] \<and> CHR ''['' \<notin> set member
          \<and> splitLib name = Some (Some lib, member)
          \<and> (\<forall>st' obj. createObj name st = Inr (st', obj) \<longrightarrow>
                 obj_name (fileList st' ! obj) = member \<and>
                 obj_lib (fileList st' ! obj) = LibPtr lib)))
   \<and> (name \<noteq> [] \<and> last name = CHR '']'' \<and> CHR ''['' \<notin> set name \<longrightarrow>
        splitLib name = None \<and> createObj name st = Inl IllFormedName)
   \<and> (name = [] \<or> last name \<noteq> CHR '']'' \<longrightarrow>
        splitLib name = Some (None, name) \<and>
        (\<exists>st'. createObj name st = Inr (st', length (fileList st)) \<and>
               obj_name (fileList st' ! length (fileList st)) = name \<and>
               obj_lib (fileList st' ! length (fileList st)) = LibNull))"
proof (intro conjI impI)
  assume a: "name \<noteq> [] \<and> last name = CHR '']'' \<and> CHR ''['' \<in> set name"
  then obtain po where
    sn: "splitName name = Some (Some po, take (length name - 1 - (po + 1)) (drop (po + 1) name))"
    and po: "po < length name - 1" "name ! po = CHR ''[''"
    and nb: "CHR ''['' \<notin> set (drop (Suc po) name)"
    using splitName_bracket [of name] by blast
  let ?m = "take (length name - 1 - (po + 1)) (drop (po + 1) name)"
  have 1: "name = take po name @ CHR ''['' # ?m @ [CHR '']'']"
    using split_pieces [OF po(1) po(2)] a by blast
  have 2: "CHR ''['' \<notin> set ?m"
    using nb by (auto dest: in_set_takeD)
  have 3: "splitLib name = Some (Some (take po name), ?m)"
    by (simp add: splitLib_def sn)
  have 4: "\<forall>st' obj. createObj name st = Inr (st', obj) \<longrightarrow>
             obj_name (fileList st' ! obj) = ?m \<and> obj_lib (fileList st' ! obj) = LibPtr (take po name)"
    using createObj_library [OF _ sn] by blast
  from 1 2 3 4
  show "\<exists>lib member. name = lib @ CHR ''['' # member @ [CHR '']''] \<and> CHR ''['' \<notin> set member
          \<and> splitLib name = Some (Some lib, member)
          \<and> (\<forall>st' obj. createObj name st = Inr (st', obj) \<longrightarrow>
                 obj_name (fileList st' ! obj) = member \<and>
                 obj_lib (fileList st' ! obj) = LibPtr lib)"
    by blast
next
  assume a: "name \<noteq> [] \<and> last name = CHR '']'' \<and> CHR ''['' \<notin> set name"
  then have "splitName name = None"
    by (simp add: splitName_ill_formed)
  then show "splitLib name = None" and "createObj name st = Inl IllFormedName"
    by (simp_all add: splitLib_def createObj_def)
next
  assume a: "name = [] \<or> last name \<noteq> CHR '']''"
  then have sn: "splitName name = Some (None, name)"
    by (rule splitName_plain)
  then show "splitLib name = Some (None, name)"
    by (simp add: splitLib_def)
  show "\<exists>st'. createObj name st = Inr (st', length (fileList st)) \<and>
               obj_name (fileList st' ! length (fileList st)) = name \<and>
               obj_lib (fileList st' ! length (fileList st)) = LibNull"
    by (simp add: createObj_plain [OF sn])
qed

theorem splitName_last_bracket_witness:
  "splitLib ''libc.a[printf.o]'' = Some (Some ''libc.a'', ''printf.o'')
   \<and> (\<exists>st'. createObj ''libc.a[printf.o]'' init_state = Inr (st', 1)
          \<and> obj_name (fileList st' ! 1) = ''printf.o''
          \<and> obj_lib (fileList st' ! 1) = LibPtr ''libc.a'')
   \<and> createObj ''printf.o]'' init_state = Inl IllFormedName
   \<and> splitLib ''a.o'' = Some (None, ''a.o'')"
proof -
  have s: "splitLib ''libc.a[printf.o]'' = Some (Some ''libc.a'', ''printf.o'')"
    by (simp add: splitLib_def splitName_def)
  have c: "\<exists>st'. createObj ''libc.a[printf.o]'' init_state = Inr (st', 1)"
    by (simp add: createObj_def splitName_def libAddObj_def createLib_def init_state_def
        undefSymPod_def Let_def)
  have "\<exists>lib member. ''libc.a[printf.o]'' = lib @ CHR ''['' # member @ [CHR '']'']
          \<and> CHR ''['' \<notin> set member
          \<and> splitLib ''libc.a[printf.o]'' = Some (Some lib, member)
          \<and> (\<forall>st' obj. createObj ''libc.a[printf.o]'' init_state = Inr (st', obj) \<longrightarrow>
                 obj_name (fileList st' ! obj) = member \<and>
                 obj_lib (fileList st' ! obj) = LibPtr lib)"
    using splitName_last_bracket [of "''libc.a[printf.o]''" init_state] by simp
  with s c have 1: "\<exists>st'. createObj ''libc.a[printf.o]'' init_state = Inr (st', 1)
          \<and> obj_name (fileList st' ! 1) = ''printf.o''
          \<and> obj_lib (fileList st' ! 1) = LibPtr ''libc.a''"
    by auto
  have 2: "createObj ''printf.o]'' init_state = Inl IllFormedName"
    using splitName_last_bracket [of "''printf.o]''" init_state] by simp
  have 3: "splitLib ''a.o'' = Some (None, ''a.o'')"
    using splitName_last_bracket [of "''a.o''" init_state] by simp
  from s 1 2 3 show ?thesis by blast
qed

subsection \<open>Looking an object up by name\<close>

lemma bsearch_Some:
  "bsearch compar l u = Some p \<Longrightarrow> l \<le> p \<and> p < u \<and> compar p = 0"
proof (induction compar l u rule: bsearch.induct)
  case (1 compar l u)
  show ?case
  proof (cases "l < u")
    case False
    with "1.prems" show ?thesis by (subst (asm) bsearch.simps) simp
  next
    case True
    let ?idx = "(l + u) div 2"
    consider "compar ?idx < 0" | "compar ?idx > 0" | "compar ?idx = 0" by linarith
    then show ?thesis
    proof cases
      case 1
      with True "1.prems" have "bsearch compar l ?idx = Some p"
        by (subst (asm) bsearch.simps) (simp add: Let_def)
      from "1.IH"(1) [OF True refl refl 1 this] True show ?thesis by auto
    next
      case 2
      with True "1.prems" have "bsearch compar (?idx + 1) u = Some p"
        by (subst (asm) bsearch.simps) (simp add: Let_def)
      from "1.IH"(2) [OF True refl refl _ 2 this] 2 True show ?thesis by auto
    next
      case 3
      with True "1.prems" show ?thesis
        by (subst (asm) bsearch.simps) (auto simp: Let_def)
    qed
  qed
qed


lemma bsearch_None:
  "bsearch compar l u = None \<Longrightarrow> (\<forall>i j. i \<le> j \<and> j < n \<longrightarrow> compar j \<le> compar i) \<Longrightarrow> u \<le> n \<Longrightarrow>
   \<forall>i. l \<le> i \<and> i < u \<longrightarrow> compar i \<noteq> 0"
proof (induction compar l u rule: bsearch.induct)
  case (1 compar l u)
  show ?case
  proof (cases "l < u")
    case False
    then show ?thesis by simp
  next
    case True
    let ?idx = "(l + u) div 2"
    have idx: "l \<le> ?idx" "?idx < u" using True by auto
    consider "compar ?idx < 0" | "compar ?idx > 0" | "compar ?idx = 0" by linarith
    then show ?thesis
    proof cases
      case 1
      with True "1.prems" have "bsearch compar l ?idx = None"
        by (subst (asm) bsearch.simps) (simp add: Let_def)
      from "1.IH"(1) [OF True refl refl 1 this "1.prems"(2)] idx "1.prems"(3)
      have a: "\<forall>i. l \<le> i \<and> i < ?idx \<longrightarrow> compar i \<noteq> 0" by simp
      have "compar i \<noteq> 0" if "?idx \<le> i" "i < u" for i
      proof -
        from "1.prems"(2) that "1.prems"(3) have "compar i \<le> compar ?idx"
          by (meson less_le_trans)
        with 1 show ?thesis by simp
      qed
      with a show ?thesis by (meson not_le_imp_less)
    next
      case 2
      with True "1.prems" have "bsearch compar (?idx + 1) u = None"
        by (subst (asm) bsearch.simps) (simp add: Let_def)
      from "1.IH"(2) [OF True refl refl _ 2 this "1.prems"(2,3)] 2
      have a: "\<forall>i. ?idx + 1 \<le> i \<and> i < u \<longrightarrow> compar i \<noteq> 0" by simp
      have "compar i \<noteq> 0" if "i \<le> ?idx" for i
      proof -
        from "1.prems"(2) that idx "1.prems"(3) have "compar ?idx \<le> compar i"
          by (meson less_le_trans)
        with 2 show ?thesis by simp
      qed
      with a show ?thesis
        by (metis Suc_eq_plus1 not_less_eq_eq)
    next
      case 3
      with True "1.prems" show ?thesis
        by (subst (asm) bsearch.simps) (auto simp: Let_def)
    qed
  qed
qed

lemma find_end_props:
  "e < n \<Longrightarrow> e < find_end compar n e \<and> find_end compar n e \<le> n
     \<and> (\<forall>i. e < i \<and> i < find_end compar n e \<longrightarrow> compar i = 0)
     \<and> (find_end compar n e < n \<longrightarrow> compar (find_end compar n e) \<noteq> 0)"
proof (induction compar n e rule: find_end.induct)
  case (1 compar n e)
  show ?case
  proof (cases "Suc e < n \<and> compar (Suc e) = 0")
    case True
    then have eq: "find_end compar n e = find_end compar n (Suc e)"
      by (subst find_end.simps) simp
    from "1.IH" [OF True] True
    have ih: "Suc e < find_end compar n (Suc e) \<and> find_end compar n (Suc e) \<le> n
     \<and> (\<forall>i. Suc e < i \<and> i < find_end compar n (Suc e) \<longrightarrow> compar i = 0)
     \<and> (find_end compar n (Suc e) < n \<longrightarrow> compar (find_end compar n (Suc e)) \<noteq> 0)"
      by simp
    show ?thesis unfolding eq using ih True
      by (metis Suc_lessD Suc_lessI)
  next
    case False
    then have eq: "find_end compar n e = Suc e"
      by (subst find_end.simps) auto
    show ?thesis unfolding eq using False "1.prems" by auto
  qed
qed

lemma find_start_props:
  "find_start compar p \<le> p
     \<and> (\<forall>i. find_start compar p \<le> i \<and> i < p \<longrightarrow> compar i = 0)
     \<and> (0 < find_start compar p \<longrightarrow> compar (find_start compar p - 1) \<noteq> 0)"
proof (induction p)
  case 0
  then show ?case by simp
next
  case (Suc p)
  show ?case
  proof (cases "compar p = 0")
    case True
    with Suc show ?thesis
      by (metis find_start.simps(2) le_SucI less_Suc_eq)
  next
    case False
    then show ?thesis by simp
  qed
qed


lemma filter_interval:
  assumes "s \<le> e" and "e \<le> length xs"
    and "\<forall>i<length xs. P (xs ! i) \<longleftrightarrow> s \<le> i \<and> i < e"
  shows "filter P xs = take (e - s) (drop s xs)"
proof -
  let ?a = "take s xs" and ?b = "take (e - s) (drop s xs)" and ?c = "drop e xs"
  have "drop s xs = ?b @ drop (e - s) (drop s xs)"
    by (rule append_take_drop_id [symmetric])
  moreover have "drop (e - s) (drop s xs) = ?c"
    using assms(1) by simp
  moreover have "xs = ?a @ drop s xs"
    by (rule append_take_drop_id [symmetric])
  ultimately have xs: "xs = ?a @ ?b @ ?c"
    by simp
  have a: "\<not> P x" if "x \<in> set ?a" for x
  proof -
    from that obtain i where "i < length ?a" "?a ! i = x"
      by (auto simp: in_set_conv_nth)
    then have "i < s" "i < length xs" "xs ! i = x" by auto
    with assms(3) show ?thesis by auto
  qed
  have c: "\<not> P x" if "x \<in> set ?c" for x
  proof -
    from that obtain i where "i < length ?c" "?c ! i = x"
      by (auto simp: in_set_conv_nth)
    then have "e + i < length xs" "xs ! (e + i) = x" using assms(2) by auto
    with assms(3) show ?thesis by fastforce
  qed
  have b: "P x" if "x \<in> set ?b" for x
  proof -
    from that obtain i where "i < length ?b" "?b ! i = x"
      by (auto simp: in_set_conv_nth)
    then have "s + i < length xs" "s + i < e" "xs ! (s + i) = x" using assms(1,2) by auto
    with assms(3) show ?thesis by fastforce
  qed
  have "filter P xs = filter P ?a @ filter P ?b @ filter P ?c"
    by (subst xs) simp
  also have "filter P ?a = []"
    using a by (simp add: filter_empty_conv)
  also have "filter P ?c = []"
    using c by (simp add: filter_empty_conv)
  also have "filter P ?b = ?b"
    using b by (simp add: filter_id_conv)
  finally show ?thesis by simp
qed

lemma strcmp_eq_0: "strcmp a b = 0 \<longleftrightarrow> a = b"
  by (simp add: strcmp_def)

lemma strcmp_antimono: "x \<le> y \<Longrightarrow> strcmp k y \<le> strcmp k x"
  by (auto simp: strcmp_def)

lemma objcmp_MATCH_ANY: "obj_lib f = MATCH_ANY \<Longrightarrow> objcmp f g = strcmp (obj_name f) (obj_name g)"
  by (simp add: objcmp_def Let_def)

lemma run_of_matches:
  fixes compar :: "nat \<Rightarrow> int"
  assumes mono: "\<forall>i j. i \<le> j \<and> j < n \<longrightarrow> compar j \<le> compar i"
    and n: "n = length xs"
    and P: "\<forall>i<n. P (xs ! i) \<longleftrightarrow> compar i = 0"
  shows "(case bsearch compar 0 n of
            None \<Rightarrow> []
          | Some found \<Rightarrow>
              take (find_end compar n found - find_start compar found)
                (drop (find_start compar found) xs)) = filter P xs"
proof (cases "bsearch compar 0 n")
  case None
  from bsearch_None [OF None mono] have "\<forall>i<n. compar i \<noteq> 0" by simp
  with P n have "filter P xs = []"
    by (auto simp: filter_empty_conv in_set_conv_nth)
  with None show ?thesis by simp
next
  case (Some p)
  from bsearch_Some [OF Some] have p: "p < n" "compar p = 0" by auto
  let ?s = "find_start compar p" and ?e = "find_end compar n p"
  from find_start_props [of compar p]
  have s: "?s \<le> p" "\<forall>i. ?s \<le> i \<and> i < p \<longrightarrow> compar i = 0"
    "0 < ?s \<longrightarrow> compar (?s - 1) \<noteq> 0" by auto
  from find_end_props [OF p(1), of compar]
  have e: "p < ?e" "?e \<le> n" "\<forall>i. p < i \<and> i < ?e \<longrightarrow> compar i = 0"
    "?e < n \<longrightarrow> compar ?e \<noteq> 0" by auto
  have inside: "compar i = 0" if "?s \<le> i" "i < ?e" for i
  proof -
    consider "i < p" | "i = p" | "p < i" by linarith
    then show ?thesis using that s(2) e(3) p(2) by cases auto
  qed
  have below: "compar i \<noteq> 0" if "i < ?s" for i
  proof -
    from that have pos: "0 < ?s" by simp
    with s(3) have ne: "compar (?s - 1) \<noteq> 0" by simp
    from s(1) p(1) pos have "?s - 1 \<le> p \<and> p < n" by arith
    with mono have "compar p \<le> compar (?s - 1)" by blast
    with ne p(2) have "0 < compar (?s - 1)" by simp
    moreover from that s(1) p(1) have "i \<le> ?s - 1 \<and> ?s - 1 < n" by arith
    with mono have "compar (?s - 1) \<le> compar i" by blast
    ultimately show ?thesis by simp
  qed
  have above: "compar i \<noteq> 0" if "?e \<le> i" "i < n" for i
  proof -
    from that have lt: "?e < n" by simp
    with e(4) have ne: "compar ?e \<noteq> 0" by simp
    from e(1) lt have "p \<le> ?e \<and> ?e < n" by simp
    with mono have "compar ?e \<le> compar p" by blast
    with ne p(2) have "compar ?e < 0" by simp
    moreover from mono that have "compar i \<le> compar ?e" by blast
    ultimately show ?thesis by simp
  qed
  have "\<forall>i<length xs. P (xs ! i) \<longleftrightarrow> ?s \<le> i \<and> i < ?e"
  proof (intro allI impI)
    fix i assume i: "i < length xs"
    show "P (xs ! i) \<longleftrightarrow> ?s \<le> i \<and> i < ?e"
    proof (cases "?s \<le> i \<and> i < ?e")
      case True
      with inside P n i show ?thesis by simp
    next
      case False
      then have "i < ?s \<or> ?e \<le> i" by auto
      with below above i n have "compar i \<noteq> 0" by auto
      with False P n i show ?thesis by simp
    qed
  qed
  from filter_interval [OF _ _ this] s(1) e(1,2) n
  have "filter P xs = take (?e - ?s) (drop ?s xs)" by simp
  with Some show ?thesis by simp
qed

lemma strrchr_head: "c \<notin> set xs \<Longrightarrow> strrchr (c # xs) c = Some 0"
  by (simp add: strrchr_None [symmetric])

lemma splitName_member_form:
  "CHR ''['' \<notin> set m \<Longrightarrow> splitName (CHR ''['' # m @ [CHR '']'']) = Some (Some 0, m)"
proof -
  assume "CHR ''['' \<notin> set m"
  then have "strrchr (m @ [CHR '']'']) CHR ''['' = None"
    by (simp add: strrchr_None)
  then show ?thesis
    by (simp add: splitName_def nth_append)
qed

lemma find_key_bare:
  assumes "CHR '']'' \<notin> set name"
  shows "find_key st name = Some \<lparr>obj_name = name, obj_lib = MATCH_ANY, link_anchor = None,
                       work = WorkNull, obj_exports = [], obj_imports = []\<rparr>"
proof -
  from assms have "name = [] \<or> last name \<noteq> CHR '']''"
    by (metis last_in_set)
  then have "splitName name = Some (None, name)" by (rule splitName_plain)
  then show ?thesis by (simp add: find_key_def)
qed

lemma find_key_member:
  assumes "CHR ''['' \<notin> set name"
  shows "find_key st (CHR ''['' # name @ [CHR '']'']) =
     Some \<lparr>obj_name = name, obj_lib = MATCH_ANY, link_anchor = None,
                       work = WorkNull, obj_exports = [], obj_imports = []\<rparr>"
  by (simp add: find_key_def splitName_member_form [OF assms])

lemma found_objs_MATCH_ANY:
  assumes key: "find_key st raw = Some f" and any: "obj_lib f = MATCH_ANY"
    and sorted: "sorted (map (\<lambda>obj. obj_name (fileList st ! obj)) (fileListIndex st))"
  shows "found_objs st raw =
           filter (\<lambda>obj. obj_name (fileList st ! obj) = obj_name f) (fileListIndex st)"
proof -
  let ?idx = "fileListIndex st"
  let ?compar = "\<lambda>i. objcmp f (fileList st ! (?idx ! i))"
  let ?P = "\<lambda>obj. obj_name (fileList st ! obj) = obj_name f"
  have c: "?compar i = strcmp (obj_name f) (obj_name (fileList st ! (?idx ! i)))" for i
    by (simp add: objcmp_MATCH_ANY [OF any])
  have mono: "\<forall>i j. i \<le> j \<and> j < length ?idx \<longrightarrow> ?compar j \<le> ?compar i"
  proof (intro allI impI)
    fix i j assume ij: "i \<le> j \<and> j < length ?idx"
    with sorted have "obj_name (fileList st ! (?idx ! i)) \<le> obj_name (fileList st ! (?idx ! j))"
      by (auto simp: sorted_iff_nth_mono dest!: spec [of _ i] spec [of _ j])
    then show "?compar j \<le> ?compar i"
      unfolding c by (rule strcmp_antimono)
  qed
  have P: "\<forall>i<length ?idx. ?P (?idx ! i) \<longleftrightarrow> ?compar i = 0"
    unfolding c by (auto simp: strcmp_eq_0)
  from run_of_matches [OF mono refl P]
  show ?thesis
    by (simp add: found_objs_def fileListFind_def key Let_def split: option.splits)
qed

lemma strcmp_le_0: "strcmp a b \<le> 0 \<longleftrightarrow> a \<le> b"
  by (auto simp: strcmp_def)

lemma objcmp_le_name: "objcmp a b \<le> 0 \<Longrightarrow> obj_name a \<le> obj_name b"
  by (auto simp: objcmp_def Let_def strcmp_def split: if_splits)

lemma objcmp_gt_name: "\<not> objcmp a b \<le> 0 \<Longrightarrow> obj_name b \<le> obj_name a"
  by (auto simp: objcmp_def Let_def strcmp_def split: if_splits)

lemma set_qsort_insert: "set (qsort_insert fl x ys) = insert x (set ys)"
  by (induction ys) auto

lemma sorted_qsort_insert:
  "sorted (map (\<lambda>obj. obj_name (fl ! obj)) ys) \<Longrightarrow>
   sorted (map (\<lambda>obj. obj_name (fl ! obj)) (qsort_insert fl x ys))"
proof (induction ys)
  case Nil
  then show ?case by simp
next
  case (Cons y ys)
  show ?case
  proof (cases "objcmp (fl ! x) (fl ! y) \<le> 0")
    case True
    from objcmp_le_name [OF True] Cons.prems show ?thesis
      using True by auto
  next
    case False
    from objcmp_gt_name [OF False] Cons show ?thesis
      using False by (auto simp: set_qsort_insert)
  qed
qed

lemma sorted_fileListBuildIndex:
  "sorted (map (\<lambda>obj. obj_name (fileList st ! obj)) (fileListBuildIndex st))"
proof -
  have "sorted (map (\<lambda>obj. obj_name (fl ! obj)) (foldr (qsort_insert fl) xs []))" for fl xs
    by (induction xs) (simp_all add: sorted_qsort_insert)
  then show ?thesis by (simp add: fileListBuildIndex_def)
qed

text \<open>
  C9: \<open>fileListFind\<close> called with a bare object name (no bracket in it) sets the library
  of its search key to \<open>MATCH_ANY\<close>, returns what it returns for the form \<open>[name]\<close>, and,
  the index being ordered by the object names, finds every object of that name, whatever
  its library: the objects found are not restricted to those outside any library.
\<close>

theorem fileListFind_bare_name:
  assumes "CHR ''['' \<notin> set name" and "CHR '']'' \<notin> set name"
  shows "map_option obj_lib (find_key st name) = Some MATCH_ANY
       \<and> fileListFind st name = fileListFind st (CHR ''['' # name @ [CHR '']''])
       \<and> (sorted (map (\<lambda>obj. obj_name (fileList st ! obj)) (fileListIndex st)) \<longrightarrow>
            found_objs st name =
              filter (\<lambda>obj. obj_name (fileList st ! obj) = name) (fileListIndex st))"
proof -
  let ?f = "\<lparr>obj_name = name, obj_lib = MATCH_ANY, link_anchor = None,
              work = WorkNull, obj_exports = [], obj_imports = []\<rparr>"
  have k: "find_key st name = Some ?f"
    using assms(2) by (rule find_key_bare)
  have m: "find_key st (CHR ''['' # name @ [CHR '']'']) = Some ?f"
    using assms(1) by (rule find_key_member)
  have "fileListFind st name = fileListFind st (CHR ''['' # name @ [CHR '']''])"
    unfolding fileListFind_def k m ..
  moreover have "found_objs st name =
      filter (\<lambda>obj. obj_name (fileList st ! obj) = name) (fileListIndex st)"
    if "sorted (map (\<lambda>obj. obj_name (fileList st ! obj)) (fileListIndex st))"
    using found_objs_MATCH_ANY [OF k _ that] by simp
  ultimately show ?thesis
    using k by simp
qed

lemma example_libs_index: "fileListIndex example_libs = [0, 2, 1, 3]"
  by (simp add: example_libs_def fileListBuildIndex_def init_state_def undefSymPod_def
      objcmp_def strcmp_def Let_def upt_rec)

theorem fileListFind_bare_name_witness:
  "fileListFind example_libs ''printf.o'' = fileListFind example_libs ''[printf.o]''
   \<and> found_objs example_libs ''printf.o'' = [2, 1, 3]
   \<and> map (\<lambda>obj. obj_lib (fileList example_libs ! obj)) (found_objs example_libs ''printf.o'')
        = [LibNull, LibPtr ''libc.a'', LibPtr ''libmine.a'']"
proof -
  have s: "sorted (map (\<lambda>obj. obj_name (fileList example_libs ! obj)) (fileListIndex example_libs))"
    unfolding example_libs_index
    by (simp add: example_libs_def init_state_def undefSymPod_def)
  have f: "fileList example_libs ! 0 = undefSymPod"
    "obj_name (fileList example_libs ! Suc 0) = ''printf.o''"
    "obj_name (fileList example_libs ! 2) = ''printf.o''"
    "obj_name (fileList example_libs ! 3) = ''printf.o''"
    "obj_lib (fileList example_libs ! Suc 0) = LibPtr ''libc.a''"
    "obj_lib (fileList example_libs ! 2) = LibNull"
    "obj_lib (fileList example_libs ! 3) = LibPtr ''libmine.a''"
    by (simp_all add: example_libs_def init_state_def)
  from fileListFind_bare_name [of "''printf.o''" example_libs] s
  have "fileListFind example_libs ''printf.o'' = fileListFind example_libs ''[printf.o]''"
    and "found_objs example_libs ''printf.o'' =
      filter (\<lambda>obj. obj_name (fileList example_libs ! obj) = ''printf.o'') (fileListIndex example_libs)"
    by simp_all
  then show ?thesis
    by (simp add: example_libs_index f undefSymPod_def)
qed

subsection \<open>The scanner's buffer\<close>

lemma fscanf_THEFMT_None: "fscanf_THEFMT inp = None \<longleftrightarrow> dropWhile isspace inp = []"
proof -
  define i1 where "i1 = dropWhile isspace inp"
  define buf where "buf = take MAXBUF (takeWhile (\<lambda>c. \<not> isspace c) i1)"
  define i2 where "i2 = drop (length buf) i1"
  define i3 where "i3 = dropWhile isblank i2"
  have eq: "fscanf_THEFMT inp =
     (if i1 = [] then None
      else if i3 = i2 then Some (Conv1 buf, i2)
      else (case i3 of
              [] \<Rightarrow> Some (Conv1 buf, [])
            | type # i4 \<Rightarrow>
                (let i5 = dropWhile (\<lambda>c. c \<noteq> CHR 0x0A) i4
                 in if i5 = i4 then Some (Conv2 buf type, i4)
                    else Some (Conv2 buf type, dropWhile isspace i5))))"
    unfolding fscanf_THEFMT_def Let_def i1_def buf_def i2_def i3_def by (rule refl)
  show ?thesis
    unfolding eq i1_def [symmetric] by (simp add: Let_def split: list.splits)
qed

lemma fscanf_THEFMT_buf:
  assumes "fscanf_THEFMT inp = Some (r, rest)"
  shows "scanned_buf r = take MAXBUF (takeWhile (\<lambda>c. \<not> isspace c) (dropWhile isspace inp))"
proof -
  define i1 where "i1 = dropWhile isspace inp"
  define buf where "buf = take MAXBUF (takeWhile (\<lambda>c. \<not> isspace c) i1)"
  define i2 where "i2 = drop (length buf) i1"
  define i3 where "i3 = dropWhile isblank i2"
  have eq: "fscanf_THEFMT inp =
     (if i1 = [] then None
      else if i3 = i2 then Some (Conv1 buf, i2)
      else (case i3 of
              [] \<Rightarrow> Some (Conv1 buf, [])
            | type # i4 \<Rightarrow>
                (let i5 = dropWhile (\<lambda>c. c \<noteq> CHR 0x0A) i4
                 in if i5 = i4 then Some (Conv2 buf type, i4)
                    else Some (Conv2 buf type, dropWhile isspace i5))))"
    unfolding fscanf_THEFMT_def Let_def i1_def buf_def i2_def i3_def by (rule refl)
  from assms have "scanned_buf r = buf"
    unfolding eq by (auto simp: Let_def split: if_splits list.splits)
  then show ?thesis by (simp add: buf_def i1_def)
qed

lemma first_token:
  assumes "\<forall>c\<in>set ws. isspace c" and "tok \<noteq> []" and "\<forall>c\<in>set tok. \<not> isspace c"
    and "rest = [] \<or> isspace (hd rest)"
  shows "dropWhile isspace (ws @ tok @ rest) = tok @ rest"
    and "takeWhile (\<lambda>c. \<not> isspace c) (tok @ rest) = tok"
proof -
  from assms(2,3) have "dropWhile isspace (tok @ rest) = tok @ rest"
    by (cases tok) auto
  with assms(1) show "dropWhile isspace (ws @ tok @ rest) = tok @ rest"
    by (simp add: dropWhile_append2)
  from assms(4) have "takeWhile (\<lambda>c. \<not> isspace c) rest = []"
    by (cases rest) auto
  with assms(3) show "takeWhile (\<lambda>c. \<not> isspace c) (tok @ rest) = tok"
    by (simp add: takeWhile_append2)
qed

lemma fscanf_first_token:
  assumes "\<forall>c\<in>set ws. isspace c" and "tok \<noteq> []" and "\<forall>c\<in>set tok. \<not> isspace c"
    and "rest = [] \<or> isspace (hd rest)"
  shows "\<exists>r i. fscanf_THEFMT (ws @ tok @ rest) = Some (r, i) \<and> scanned_buf r = take MAXBUF tok"
proof -
  from first_token [OF assms] assms(2)
  have 1: "dropWhile isspace (ws @ tok @ rest) = tok @ rest"
    and 2: "takeWhile (\<lambda>c. \<not> isspace c) (tok @ rest) = tok"
    by auto
  from 1 assms(2) have "fscanf_THEFMT (ws @ tok @ rest) \<noteq> None"
    by (simp add: fscanf_THEFMT_None)
  then obtain r i where s: "fscanf_THEFMT (ws @ tok @ rest) = Some (r, i)"
    by auto
  from fscanf_THEFMT_buf [OF s] 1 2 have "scanned_buf r = take MAXBUF tok"
    by simp
  with s show ?thesis by blast
qed

lemma libAddObj_no_overrun: "libAddObj libname obj st \<noteq> Inl BufferOverrun"
  by (simp add: libAddObj_def Let_def)

lemma createObj_no_overrun: "createObj name st \<noteq> Inl BufferOverrun"
  using libAddObj_no_overrun
  by (auto simp: createObj_def Let_def split: option.splits sum.splits)

lemma scan_header_no_overrun: "scan_header obj buf st \<noteq> Inl BufferOverrun"
  using createObj_no_overrun
  by (auto simp: scan_header_def split: sum.splits)

lemma classify_no_overrun: "classify force obj s type st \<noteq> Inl BufferOverrun"
  by (simp add: classify_def Let_def)

lemma scan_symbol_no_overrun: "scan_symbol force name obj buf type st \<noteq> Inl BufferOverrun"
  using createObj_no_overrun classify_no_overrun
  by (auto simp: scan_symbol_def Let_def split: option.splits sum.splits)

lemma scan_record_overrun:
  "scan_record force name obj r st = Inl BufferOverrun \<longleftrightarrow> length (scanned_buf r) = MAXBUF"
  using scan_header_no_overrun scan_symbol_no_overrun
  by (cases r) (auto simp: scan_record_def tag_overwritten_def)

lemma scan_loop_first_token:
  assumes "\<forall>c\<in>set ws. isspace c" and "tok \<noteq> []" and "\<forall>c\<in>set tok. \<not> isspace c"
    and "rest = [] \<or> isspace (hd rest)"
  shows "\<exists>r i. fscanf_THEFMT (ws @ tok @ rest) = Some (r, i)
     \<and> (length tok < MAXBUF \<longrightarrow>
           scanned_buf r = tok \<and> scan_record force name obj r st \<noteq> Inl BufferOverrun)
     \<and> (MAXBUF \<le> length tok \<longrightarrow>
           scan_record force name obj r st = Inl BufferOverrun \<and>
           scan_loop force name obj (ws @ tok @ rest) st = Inl BufferOverrun)"
proof -
  from fscanf_first_token [OF assms] obtain r i where
    s: "fscanf_THEFMT (ws @ tok @ rest) = Some (r, i)" and b: "scanned_buf r = take MAXBUF tok"
    by blast
  have "scanned_buf r = tok \<and> scan_record force name obj r st \<noteq> Inl BufferOverrun"
    if "length tok < MAXBUF"
    using that b by (simp add: scan_record_overrun)
  moreover have "scan_record force name obj r st = Inl BufferOverrun \<and>
           scan_loop force name obj (ws @ tok @ rest) st = Inl BufferOverrun"
    if "MAXBUF \<le> length tok"
  proof -
    from that b have o: "scan_record force name obj r st = Inl BufferOverrun"
      by (simp add: scan_record_overrun)
    then show ?thesis
      by (subst scan_loop.simps) (simp add: s)
  qed
  ultimately show ?thesis using s by blast
qed


lemma substitute_name_plain:
  "splitName (substitute_name name) = Some (None, substitute_name name)"
proof -
  have "substitute_name name \<noteq> [] \<and> last (substitute_name name) = CHR ''o''"
    by (auto simp: substitute_name_def split: option.splits)
  then show ?thesis
    by (intro splitName_plain) auto
qed

lemma fscanf_symbol_line:
  assumes "tok \<noteq> []" and "\<forall>c\<in>set tok. \<not> isspace c" and "length tok \<le> MAXBUF"
  shows "fscanf_THEFMT (tok @ '' T'') = Some (Conv2 tok CHR ''T'', [])"
proof -
  have r: "'' T'' = [] \<or> isspace (hd '' T'')" by (simp add: isspace_def)
  have e: "\<forall>c\<in>set ([]::string). isspace c" by simp
  from first_token [OF e assms(1,2) r]
  have 1: "dropWhile isspace (tok @ '' T'') = tok @ '' T''"
    and 2: "takeWhile (\<lambda>c. \<not> isspace c) (tok @ '' T'') = tok"
    by simp_all
  show ?thesis
    unfolding fscanf_THEFMT_def Let_def 1 2
    using assms(1,3) by (simp add: isblank_def)
qed

lemma scan_file_short_name:
  assumes "tok \<noteq> []" and "\<forall>c\<in>set tok. \<not> isspace c" and "length tok < MAXBUF"
  shows "\<exists>st'. scan_file force name (tok @ '' T'') init_state = Inr st'"
proof -
  from assms have f: "fscanf_THEFMT (tok @ '' T'') = Some (Conv2 tok CHR ''T'', [])"
    by (intro fscanf_symbol_line) auto
  have t: "TOUPPER force CHR ''T'' = CHR ''T''"
    by (simp add: TOUPPER_def toupper_def)
  have "\<exists>st' f. scan_symbol force name None tok CHR ''T'' init_state = Inr (st', Some f)"
    by (simp add: scan_symbol_def createObj_plain [OF substitute_name_plain] Let_def t classify_def)
  then obtain st' f where "scan_symbol force name None tok CHR ''T'' init_state = Inr (st', Some f)"
    by blast
  with assms(3) have r: "scan_record force name None (Conv2 tok CHR ''T'') init_state = Inr (st', Some f)"
    by (simp add: scan_record_def tag_overwritten_def)
  have n: "fscanf_THEFMT [] = None"
    by (simp add: fscanf_THEFMT_None)
  have "scan_loop force name (Some f) [] st' = Inr (fixupObj (Some f) st')"
    by (subst scan_loop.simps) (simp add: n)
  then have "scan_file force name (tok @ '' T'') init_state = Inr (fixupObj (Some f) st')"
    unfolding scan_file_def
    by (subst scan_loop.simps) (simp add: f r)
  then show ?thesis by blast
qed

text \<open>
  C8, as the specification states it, fails: a record whose name has exactly 500 bytes is
  not accepted. \<open>%500s\<close> stores the 500 bytes and writes the terminating NUL over the tag
  at \<open>buf[MAXBUF]\<close>, and \<open>scan_file\<close> reports the overrun.
\<close>

theorem scan_file_name_500_counterexample:
  "length (replicate 500 CHR ''x'') \<le> 500 \<and>
   scan_file False ''f'' (replicate 500 CHR ''x'' @ '' T'') init_state = Inl BufferOverrun"
proof -
  have "\<exists>r i. fscanf_THEFMT ([] @ replicate 500 CHR ''x'' @ '' T'') = Some (r, i)
     \<and> (length (replicate 500 CHR ''x'') < MAXBUF \<longrightarrow>
           scanned_buf r = replicate 500 CHR ''x'' \<and>
           scan_record False ''f'' None r init_state \<noteq> Inl BufferOverrun)
     \<and> (MAXBUF \<le> length (replicate 500 CHR ''x'') \<longrightarrow>
           scan_record False ''f'' None r init_state = Inl BufferOverrun \<and>
           scan_loop False ''f'' None ([] @ replicate 500 CHR ''x'' @ '' T'') init_state
             = Inl BufferOverrun)"
    by (rule scan_loop_first_token) (simp_all add: isspace_def)
  then show ?thesis
    by (auto simp: scan_file_def MAXBUF_def)
qed

text \<open>
  C8, amended: the scanner accepts every record whose name has at most 499 bytes, and a
  record whose name has 500 bytes or more is a fatal error. For a name \<open>tok\<close> that is the
  next token of the input (after white space \<open>ws\<close>, and followed by white space or the end
  of the file): when \<open>tok\<close> has fewer than \<open>MAXBUF\<close> bytes, \<open>fscanf\<close> stores all of it and
  the record is not rejected as a buffer overrun, and the file that holds just the record
  \<open>tok T\<close> is scanned with success; when \<open>tok\<close> has \<open>MAXBUF\<close> bytes or more, the record is
  rejected, and \<open>scan_file\<close> at this record, whatever it has read before, reports the
  overrun and returns the error.
\<close>

theorem scan_file_name_length:
  assumes "\<forall>c\<in>set ws. isspace c" and "tok \<noteq> []" and "\<forall>c\<in>set tok. \<not> isspace c"
    and "rest = [] \<or> isspace (hd rest)"
  shows "\<exists>r i. fscanf_THEFMT (ws @ tok @ rest) = Some (r, i)
     \<and> (length tok < MAXBUF \<longrightarrow>
           scanned_buf r = tok \<and> scan_record force name obj r st \<noteq> Inl BufferOverrun
           \<and> (\<exists>st'. scan_file force name (tok @ '' T'') init_state = Inr st'))
     \<and> (MAXBUF \<le> length tok \<longrightarrow>
           scan_record force name obj r st = Inl BufferOverrun \<and>
           scan_loop force name obj (ws @ tok @ rest) st = Inl BufferOverrun \<and>
           scan_file force name (ws @ tok @ rest) st = Inl BufferOverrun)"
proof -
  from scan_loop_first_token [OF assms, of force name obj st] obtain r i where
    1: "fscanf_THEFMT (ws @ tok @ rest) = Some (r, i)"
    and 2: "length tok < MAXBUF \<longrightarrow>
           scanned_buf r = tok \<and> scan_record force name obj r st \<noteq> Inl BufferOverrun"
    and 3: "MAXBUF \<le> length tok \<longrightarrow>
           scan_record force name obj r st = Inl BufferOverrun \<and>
           scan_loop force name obj (ws @ tok @ rest) st = Inl BufferOverrun"
    by blast
  from scan_loop_first_token [OF assms, of force name None st]
  have 4: "MAXBUF \<le> length tok \<longrightarrow>
           scan_file force name (ws @ tok @ rest) st = Inl BufferOverrun"
    by (auto simp: scan_file_def)
  have 5: "length tok < MAXBUF \<longrightarrow> (\<exists>st'. scan_file force name (tok @ '' T'') init_state = Inr st')"
    using scan_file_short_name [OF assms(2,3)] by blast
  from 1 2 3 4 5 show ?thesis by blast
qed

theorem scan_file_name_length_witness:
  "(\<exists>st'. scan_file False ''f'' (replicate 499 CHR ''x'' @ '' T'') init_state = Inr st')
   \<and> scan_file False ''f'' (replicate 500 CHR ''x'' @ '' T'') init_state = Inl BufferOverrun
   \<and> scan_file False ''f'' (replicate 501 CHR ''x'' @ '' T'') init_state = Inl BufferOverrun"
proof -
  have h: "\<forall>c\<in>set ([]::string). isspace c" "'' T'' = [] \<or> isspace (hd '' T'')"
    by (simp_all add: isspace_def)
  have t: "replicate n CHR ''x'' \<noteq> []" "\<forall>c\<in>set (replicate n CHR ''x''). \<not> isspace c"
    if "0 < n" for n
    using that by (auto simp: isspace_def)
  from scan_file_name_length [OF h(1) t [of 499] h(2), of False "''f''" None init_state]
  have 1: "\<exists>st'. scan_file False ''f'' (replicate 499 CHR ''x'' @ '' T'') init_state = Inr st'"
    by (auto simp: MAXBUF_def)
  from scan_file_name_length [OF h(1) t [of 500] h(2), of False "''f''" None init_state]
  have 2: "scan_file False ''f'' (replicate 500 CHR ''x'' @ '' T'') init_state = Inl BufferOverrun"
    by (auto simp: MAXBUF_def)
  from scan_file_name_length [OF h(1) t [of 501] h(2), of False "''f''" None init_state]
  have 3: "scan_file False ''f'' (replicate 501 CHR ''x'' @ '' T'') init_state = Inl BufferOverrun"
    by (auto simp: MAXBUF_def)
  from 1 2 3 show ?thesis by blast
qed

subsection \<open>The type of a symbol\<close>

lemma map_of_tsearch_insert:
  "map_of (tsearch_insert k v t) = (map_of t)(k \<mapsto> v)" if "map_of t k = None"
  using that by (induction t) (auto simp: fun_eq_iff split: if_splits)

lemma tfind_sym_modify:
  "tfind (sym_modify n f st) m =
     (if m = n then map_option f (tfind st n) else tfind st m)"
  by (simp add: tfind_def sym_modify_def map_of_map_entry split: option.splits)





lemma symTbl_libAddObj: "libAddObj libname obj st = Inr st' \<Longrightarrow> symTbl st' = symTbl st"
  by (auto simp: libAddObj_def createLib_def Let_def split: if_splits)

lemma symTbl_createObj: "createObj name st = Inr (st', obj) \<Longrightarrow> symTbl st' = symTbl st"
  by (auto simp: createObj_def Let_def split: option.splits sum.splits dest!: symTbl_libAddObj)




























text \<open>By the rule, a stored type other than \<open>U\<close> stays what it is, whatever follows.\<close>

lemma spec_record_keeps:
  assumes "types m = Some t" and "t \<noteq> CHR ''U''"
  shows "fst (snd (spec_record force r (in_obj, types, ws))) m = Some t"
  using assms by (cases r) (auto simp: spec_record_def spec_type_update_def)





subsection \<open>The exporter lists\<close>

lemma sym_exportedBy_sym_modify:
  "sym_exportedBy (sym_modify n g st) m =
     (if m = n then (case tfind st n of None \<Rightarrow> [] | Some s \<Rightarrow> exportedBy (g s))
      else sym_exportedBy st m)"
  by (simp add: sym_exportedBy_def tfind_sym_modify split: option.splits)

lemma fileList_sym_modify: "fileList (sym_modify n g st) = fileList st"
  by (simp add: sym_modify_def)

lemma tfind_None_sym_modify: "tfind (sym_modify n g st) m = None \<longleftrightarrow> tfind st m = None"
  by (simp add: tfind_sym_modify)

lemma cell_sym_cong: "fileList st' = fileList st \<Longrightarrow> cell_sym st' = cell_sym st"
  by (simp add: cell_sym_def fun_eq_iff)

lemma fixup_export_props:
  assumes "tfind st (cell_sym st (f, i)) \<noteq> None"
  shows "sym_exportedBy (fixup_export f i st) m =
           sym_exportedBy st m @ (if cell_sym st (f, i) = m then [(f, i)] else [])"
    and "fileList (fixup_export f i st) = fileList st"
    and "tfind (fixup_export f i st) n = None \<longleftrightarrow> tfind st n = None"
  using assms
  by (auto simp: fixup_export_def fileList_sym_modify tfind_sym_modify
      cell_sym_def sym_exportedBy_def)

lemma fold_fixup_export:
  assumes "\<forall>i<j. tfind st (cell_sym st (f, i)) \<noteq> None"
  shows "sym_exportedBy (fold (fixup_export f) [0..<j] st) m =
           sym_exportedBy st m @ filter (\<lambda>x. cell_sym st x = m) (map (Pair f) [0..<j])
         \<and> fileList (fold (fixup_export f) [0..<j] st) = fileList st
         \<and> (\<forall>n. tfind (fold (fixup_export f) [0..<j] st) n = None \<longleftrightarrow> tfind st n = None)"
  using assms
proof (induction j)
  case 0
  then show ?case by simp
next
  case (Suc j)
  let ?st = "fold (fixup_export f) [0..<j] st"
  from Suc have ih: "sym_exportedBy ?st m =
           sym_exportedBy st m @ filter (\<lambda>x. cell_sym st x = m) (map (Pair f) [0..<j])"
    and fl: "fileList ?st = fileList st"
    and tf: "\<And>n. tfind ?st n = None \<longleftrightarrow> tfind st n = None"
    by auto
  have cs: "cell_sym ?st = cell_sym st"
    using fl by (rule cell_sym_cong)
  from Suc.prems tf cs have ex: "tfind ?st (cell_sym ?st (f, j)) \<noteq> None"
    by simp
  have e: "fold (fixup_export f) [0..<Suc j] st = fixup_export f j ?st"
    by simp
  show ?case
    unfolding e using fixup_export_props [OF ex] ih fl tf cs
    by simp
qed

lemma export_cells_Suc: "export_cells st (Suc k) = export_cells st k @ obj_cells st k"
  by (simp add: export_cells_def)

lemma export_cells_cong:
  assumes "\<forall>g<k. obj_exports (fileList st' ! g) = obj_exports (fileList st ! g)"
  shows "export_cells st' k = export_cells st k"
proof -
  have "map (obj_cells st') [0..<k] = map (obj_cells st) [0..<k]"
    by (rule map_cong) (simp_all add: obj_cells_def assms)
  then show ?thesis unfolding export_cells_def by (rule arg_cong)
qed

lemma export_cells_mem:
  "x \<in> set (export_cells st k) \<longleftrightarrow>
     fst x < k \<and> snd x < length (obj_exports (fileList st ! fst x))"
  by (cases x) (auto simp: export_cells_def obj_cells_def image_iff)

lemma filter_cells_cong:
  assumes "\<forall>g<k. obj_exports (fileList st' ! g) = obj_exports (fileList st ! g)"
  shows "filter (\<lambda>x. cell_sym st' x = n) (export_cells st' k) =
         filter (\<lambda>x. cell_sym st x = n) (export_cells st k)"
proof -
  have "cell_sym st' x = cell_sym st x" if "x \<in> set (export_cells st k)" for x
    using that assms by (simp add: export_cells_mem cell_sym_def)
  then show ?thesis
    unfolding export_cells_cong [OF assms] by (auto intro: filter_cong)
qed

lemma fixed_up_fixupObj:
  assumes "fixed_up st f" and "Suc f = length (fileList st)"
  shows "fixed_up (fixupObj (Some f) st) (Suc f)"
proof -
  let ?j = "length (obj_exports (fileList st ! f))"
  let ?st = "fold (fixup_export f) [0..<?j] st"
  from assms(1)
  have eb: "\<And>n. sym_exportedBy st n = filter (\<lambda>x. cell_sym st x = n) (export_cells st f)"
    and all: "\<forall>g<length (fileList st). \<forall>c\<in>set (obj_exports (fileList st ! g)). tfind st (xsym c) \<noteq> None"
    unfolding fixed_up_def by blast+
  from assms(2) have "f < length (fileList st)" by simp
  with all have ex: "\<forall>c\<in>set (obj_exports (fileList st ! f)). tfind st (xsym c) \<noteq> None"
    by blast
  from ex have "\<forall>i<?j. tfind st (cell_sym st (f, i)) \<noteq> None"
    by (simp add: cell_sym_def)
  note fold = fold_fixup_export [OF this]
  have fl: "fileList ?st = fileList st" using fold by blast
  have tf: "\<And>n. tfind ?st n = None \<longleftrightarrow> tfind st n = None" using fold by blast
  have cs: "cell_sym ?st = cell_sym st" using fl by (rule cell_sym_cong)
  have ec: "export_cells ?st k = export_cells st k" for k
    by (rule export_cells_cong) (simp add: fl)
  have "sym_exportedBy ?st n = filter (\<lambda>x. cell_sym ?st x = n) (export_cells ?st (Suc f))" for n
    using fold [of n] eb [of n]
    by (simp add: cs ec export_cells_Suc obj_cells_def)
  moreover have "\<forall>g<length (fileList ?st). \<forall>c\<in>set (obj_exports (fileList ?st ! g)).
      tfind ?st (xsym c) \<noteq> None"
    using all by (simp add: fl tf)
  ultimately show ?thesis
    using assms(2) by (simp add: fixed_up_def fixupObj_def fl)
qed


lemma fixed_up_frame:
  assumes "fixed_up st k"
    and "\<And>n. sym_exportedBy st' n = sym_exportedBy st n"
    and "\<forall>g<k. obj_exports (fileList st' ! g) = obj_exports (fileList st ! g)"
    and "k \<le> length (fileList st')"
    and "\<forall>g<length (fileList st'). \<forall>c\<in>set (obj_exports (fileList st' ! g)).
           tfind st' (xsym c) \<noteq> None"
  shows "fixed_up st' k"
proof -
  from assms(1) have "\<And>n. sym_exportedBy st n = filter (\<lambda>x. cell_sym st x = n) (export_cells st k)"
    unfolding fixed_up_def by blast
  then have "sym_exportedBy st' n = filter (\<lambda>x. cell_sym st' x = n) (export_cells st' k)" for n
    by (simp add: assms(2) filter_cells_cong [OF assms(3)])
  with assms(4,5) show ?thesis
    unfolding fixed_up_def by blast
qed

lemma createObj_result:
  assumes "createObj name st = Inr (st', f)"
  shows "f = length (fileList st)" and "length (fileList st') = Suc f"
    and "\<forall>g<f. obj_exports (fileList st' ! g) = obj_exports (fileList st ! g)"
    and "obj_exports (fileList st' ! f) = []"
    and "symTbl st' = symTbl st"
proof -
  from assms obtain po objn where sn: "splitName name = Some (po, objn)"
    by (auto simp: createObj_def split: option.splits)
  let ?new = "\<lparr>obj_name = objn, obj_lib = LibNull, link_anchor = None,
                 work = WorkNull, obj_exports = [], obj_imports = []\<rparr>"
  have "f = length (fileList st) \<and> length (fileList st') = Suc f
    \<and> (\<forall>g<f. obj_exports (fileList st' ! g) = obj_exports (fileList st ! g))
    \<and> obj_exports (fileList st' ! f) = []"
  proof (cases po)
    case None
    with sn assms show ?thesis
      by (auto simp: createObj_plain nth_append)
  next
    case (Some p)
    with sn assms obtain st1 where
      l: "libAddObj (take p name) (length (fileList st)) (st\<lparr>fileList := fileList st @ [?new]\<rparr>) = Inr st'"
      and f: "f = length (fileList st)"
      by (auto simp: createObj_def Let_def split: sum.splits)
    from libAddObj_fileList [OF l] f show ?thesis
      by (auto simp: nth_append nth_list_update)
  qed
  then show "f = length (fileList st)" and "length (fileList st') = Suc f"
    and "\<forall>g<f. obj_exports (fileList st' ! g) = obj_exports (fileList st ! g)"
    and "obj_exports (fileList st' ! f) = []"
    by blast+
  show "symTbl st' = symTbl st"
    using assms by (rule symTbl_createObj)
qed

lemma sym_exportedBy_cong: "symTbl st' = symTbl st \<Longrightarrow> sym_exportedBy st' n = sym_exportedBy st n"
  by (simp add: sym_exportedBy_def tfind_def)

lemma tfind_cong: "symTbl st' = symTbl st \<Longrightarrow> tfind st' n = tfind st n"
  by (simp add: tfind_def)

lemma scanning_createObj:
  assumes "fixed_up st (length (fileList st))" and "createObj name st = Inr (st', f)"
  shows "scanning st' (Some f)"
proof -
  note r = createObj_result [OF assms(2)]
  from assms(1) have all: "\<forall>g<length (fileList st). \<forall>c\<in>set (obj_exports (fileList st ! g)).
      tfind st (xsym c) \<noteq> None"
    unfolding fixed_up_def by blast
  have ex: "\<forall>g<length (fileList st'). \<forall>c\<in>set (obj_exports (fileList st' ! g)).
           tfind st' (xsym c) \<noteq> None"
  proof (intro allI impI ballI)
    fix g c assume g: "g < length (fileList st')" and c: "c \<in> set (obj_exports (fileList st' ! g))"
    from g r(2) have "g < f \<or> g = f" by auto
    then show "tfind st' (xsym c) \<noteq> None"
    proof
      assume "g < f"
      with r(1,3) c all show ?thesis
        by (simp add: tfind_cong [OF r(5)])
    next
      assume "g = f"
      with r(4) c show ?thesis by simp
    qed
  qed
  have "fixed_up st' f"
    using assms(1) [folded r(1)] sym_exportedBy_cong [OF r(5)] r(3) _ ex
    by (rule fixed_up_frame) (simp add: r(2))
  with r(2) show ?thesis
    by (simp add: scanning_def)
qed

lemma intern_sym_exportedBy:
  "sym_exportedBy (intern_sym buf type st) n = sym_exportedBy st n"
proof -
  have t: "tfind (st\<lparr>warnings := w\<rparr>) = tfind st" for w
    by (simp add: tfind_def fun_eq_iff)
  show ?thesis
  proof (cases "tfind st buf")
    case None
    then show ?thesis
      by (auto simp: intern_sym_def sym_exportedBy_def tfind_def map_of_tsearch_insert)
  next
    case (Some s)
    then show ?thesis
      by (auto simp: intern_sym_def Let_def sym_exportedBy_def tfind_sym_modify t)
  qed
qed

lemma intern_sym_tfind:
  "tfind (intern_sym buf type st) n = None \<longleftrightarrow> n \<noteq> buf \<and> tfind st n = None"
proof -
  have t: "tfind (st\<lparr>warnings := w\<rparr>) = tfind st" for w
    by (simp add: tfind_def fun_eq_iff)
  show ?thesis
  proof (cases "tfind st buf")
    case None
    then show ?thesis
      by (auto simp: intern_sym_def tfind_def map_of_tsearch_insert)
  next
    case (Some s)
    then show ?thesis
      by (auto simp: intern_sym_def Let_def tfind_sym_modify t)
  qed
qed

lemma intern_sym_fileList: "fileList (intern_sym buf type st) = fileList st"
  by (simp add: intern_sym_def Let_def sym_modify_def split: option.splits)

lemma classify_result:
  assumes "classify force f buf type st = Inr st'"
  shows "symTbl st' = symTbl st \<and> length (fileList st') = length (fileList st)
       \<and> (\<forall>g. g \<noteq> f \<longrightarrow> fileList st' ! g = fileList st ! g)
       \<and> set (map xsym (obj_exports (fileList st' ! f)))
            \<subseteq> insert buf (set (map xsym (obj_exports (fileList st ! f))))"
proof -
  have "symTbl (obj_modify f g st) = symTbl st \<and>
        length (fileList (obj_modify f g st)) = length (fileList st) \<and>
        (\<forall>h. h \<noteq> f \<longrightarrow> fileList (obj_modify f g st) ! h = fileList st ! h)" for g
    by (simp add: obj_modify_def)
  moreover have "obj_exports (fileList (obj_modify f g st) ! f) =
      (if f < length (fileList st) then obj_exports (g (fileList st ! f))
       else obj_exports (fileList st ! f))" for g
    by (simp add: obj_modify_def list_update_beyond not_less)
  ultimately show ?thesis
    using assms
    by (auto simp: classify_def Let_def add_export_def add_import_def split: if_splits)
qed


lemma fileList_fold_fixup: "fileList (fold (fixup_export f) is st) = fileList st"
  by (induction "is" arbitrary: st) (simp_all add: fixup_export_def fileList_sym_modify)

lemma fileList_fixupObj: "fileList (fixupObj obj st) = fileList st"
  by (cases obj) (simp_all add: fixupObj_def fileList_fold_fixup)

lemma scanning_fixupObj:
  assumes "scanning st obj"
  shows "fixed_up (fixupObj obj st) (length (fileList (fixupObj obj st)))"
proof (cases obj)
  case None
  with assms show ?thesis by (simp add: scanning_def fixupObj_def)
next
  case (Some f)
  with assms have "Suc f = length (fileList st)" "fixed_up st f"
    by (simp_all add: scanning_def)
  from fixed_up_fixupObj [OF this(2,1)] this(1) Some show ?thesis
    by (simp add: fileList_fixupObj)
qed

lemma scanning_scan_header:
  assumes "scanning st obj" and "scan_header obj buf st = Inr (st', obj')"
  shows "scanning st' obj'"
proof -
  from assms(2) obtain f where c: "createObj (butlast buf) (fixupObj obj st) = Inr (st', f)"
    and o: "obj' = Some f"
    by (auto simp: scan_header_def split: if_splits sum.splits)
  from scanning_createObj [OF scanning_fixupObj [OF assms(1)] c] o show ?thesis by simp
qed

lemma fixed_up_warnings: "fixed_up (st\<lparr>warnings := w\<rparr>) k = fixed_up st k"
proof -
  have o: "obj_cells (st\<lparr>warnings := w\<rparr>) = obj_cells st"
    by (simp add: obj_cells_def fun_eq_iff)
  have "export_cells (st\<lparr>warnings := w\<rparr>) = export_cells st"
    unfolding export_cells_def o ..
  moreover have "cell_sym (st\<lparr>warnings := w\<rparr>) = cell_sym st"
    by (simp add: cell_sym_def fun_eq_iff)
  moreover have "sym_exportedBy (st\<lparr>warnings := w\<rparr>) = sym_exportedBy st"
    by (simp add: sym_exportedBy_def tfind_def fun_eq_iff)
  moreover have "tfind (st\<lparr>warnings := w\<rparr>) = tfind st"
    by (simp add: tfind_def fun_eq_iff)
  ultimately show ?thesis
    by (simp add: fixed_up_def)
qed

lemma scanning_scan_symbol:
  assumes "scanning st obj" and "scan_symbol force name obj buf type st = Inr (st', obj')"
  shows "scanning st' obj'"
proof -
  let ?t = "TOUPPER force type"
  from assms(2) obtain st1 f where
    1: "(case obj of Some f \<Rightarrow> Inr (st, f)
         | None \<Rightarrow> createObj (substitute_name name)
                     (st\<lparr>warnings := warnings st @ [SymbolWithoutObject]\<rparr>)) = Inr (st1, f)"
    and 3: "classify force f buf ?t (intern_sym buf ?t st1) = Inr st'"
    and o: "obj' = Some f"
    by (auto simp: scan_symbol_def Let_def split: sum.splits)
  have s1: "scanning st1 (Some f)"
  proof (cases obj)
    case (Some g)
    with 1 assms(1) show ?thesis by simp
  next
    case None
    let ?st = "st\<lparr>warnings := warnings st @ [SymbolWithoutObject]\<rparr>"
    from None assms(1) have "fixed_up st (length (fileList st))"
      by (simp add: scanning_def)
    then have "fixed_up ?st (length (fileList ?st))"
      by (simp add: fixed_up_warnings)
    moreover from None 1 have "createObj (substitute_name name) ?st = Inr (st1, f)"
      by simp
    ultimately show ?thesis by (rule scanning_createObj)
  qed
  then have len: "Suc f = length (fileList st1)" and fu: "fixed_up st1 f"
    by (simp_all add: scanning_def)
  from fu have all: "\<forall>g<length (fileList st1). \<forall>c\<in>set (obj_exports (fileList st1 ! g)).
      tfind st1 (xsym c) \<noteq> None"
    unfolding fixed_up_def by blast
  let ?st2 = "intern_sym buf ?t st1"
  from classify_result [OF 3]
  have sy: "symTbl st' = symTbl ?st2" and ln: "length (fileList st') = length (fileList st1)"
    and oth: "\<forall>g. g \<noteq> f \<longrightarrow> fileList st' ! g = fileList st1 ! g"
    and cur: "set (map xsym (obj_exports (fileList st' ! f)))
            \<subseteq> insert buf (set (map xsym (obj_exports (fileList st1 ! f))))"
    by (simp_all add: intern_sym_fileList)
  have tf: "tfind st' n \<noteq> None" if "n = buf \<or> tfind st1 n \<noteq> None" for n
    using that by (auto simp: tfind_cong [OF sy] intern_sym_tfind)
  have ex: "\<forall>g<length (fileList st'). \<forall>c\<in>set (obj_exports (fileList st' ! g)).
           tfind st' (xsym c) \<noteq> None"
  proof (intro allI impI ballI)
    fix g c assume g: "g < length (fileList st')" and c: "c \<in> set (obj_exports (fileList st' ! g))"
    show "tfind st' (xsym c) \<noteq> None"
    proof (cases "g = f")
      case False
      with oth c have "c \<in> set (obj_exports (fileList st1 ! g))" by simp
      with all g ln have "tfind st1 (xsym c) \<noteq> None" by simp
      then show ?thesis by (simp add: tf)
    next
      case True
      with c cur have "xsym c = buf \<or> xsym c \<in> set (map xsym (obj_exports (fileList st1 ! f)))"
        by auto
      then show ?thesis
      proof
        assume "xsym c = buf"
        then show ?thesis by (simp add: tf)
      next
        assume "xsym c \<in> set (map xsym (obj_exports (fileList st1 ! f)))"
        then obtain c' where "c' \<in> set (obj_exports (fileList st1 ! f))" "xsym c' = xsym c"
          by auto
        with all len have "tfind st1 (xsym c) \<noteq> None"
          by (metis lessI)
        then show ?thesis by (simp add: tf)
      qed
    qed
  qed
  have eb: "sym_exportedBy st' n = sym_exportedBy st1 n" for n
    by (simp add: sym_exportedBy_cong [OF sy] intern_sym_exportedBy)
  have "fixed_up st' f"
    using fu eb _ _ ex
    by (rule fixed_up_frame) (simp_all add: oth ln len [symmetric])
  with o ln len show ?thesis
    by (simp add: scanning_def)
qed

lemma scanning_scan_record:
  assumes "scanning st obj" and "scan_record force name obj r st = Inr (st', obj')"
  shows "scanning st' obj'"
  using assms
  by (cases r) (auto simp: scan_record_def split: if_splits
      intro: scanning_scan_header scanning_scan_symbol)

lemma fixed_up_scan_loop:
  assumes "scan_loop force name obj inp st = Inr st'" and "scanning st obj"
  shows "fixed_up st' (length (fileList st'))"
  using assms
proof (induction force name obj inp st rule: scan_loop.induct)
  case (1 force name obj inp st)
  show ?case
  proof (cases "fscanf_THEFMT inp")
    case None
    with "1.prems"(1) have "st' = fixupObj obj st"
      by (subst (asm) scan_loop.simps) simp
    with scanning_fixupObj [OF "1.prems"(2)] show ?thesis by simp
  next
    case (Some a)
    obtain r rest where a: "a = (r, rest)" by (cases a)
    from "1.prems"(1) Some a obtain st1 obj1 where
      r: "scan_record force name obj r st = Inr (st1, obj1)"
      and l: "scan_loop force name obj1 rest st1 = Inr st'"
      by (subst (asm) scan_loop.simps) (auto split: sum.splits)
    from scanning_scan_record [OF "1.prems"(2) r] have "scanning st1 obj1" .
    from "1.IH" [OF Some a [symmetric] r refl l this] show ?thesis .
  qed
qed

lemma fixed_up_scan_files:
  assumes "scan_files force files lastAppObj st = Inr (st', l)"
    and "fixed_up st (length (fileList st))"
  shows "fixed_up st' (length (fileList st'))"
  using assms
proof (induction files arbitrary: lastAppObj st)
  case Nil
  then show ?case by simp
next
  case (Cons a files)
  obtain nm inp where a: "a = (nm, inp)" by (cases a)
  from Cons.prems(1) a obtain st1 l1 where
    1: "scan_file force nm inp st = Inr st1"
    and 2: "scan_files force files l1 st1 = Inr (st', l)"
    by (auto split: sum.splits)
  from Cons.prems(2) have "scanning st None" by (simp add: scanning_def)
  with 1 have "fixed_up st1 (length (fileList st1))"
    unfolding scan_file_def by (rule fixed_up_scan_loop)
  from Cons.IH [OF 2 this] show ?case .
qed

lemma fixed_up_init_state: "fixed_up init_state (length (fileList init_state))"
  by (simp add: fixed_up_def init_state_def undefSymPod_def sym_exportedBy_def tfind_def
      export_cells_def obj_cells_def)

lemma distinct_export_cells: "distinct (export_cells st k)"
proof (induction k)
  case 0
  then show ?case by (simp add: export_cells_def)
next
  case (Suc k)
  have "distinct (obj_cells st k)"
    by (simp add: obj_cells_def distinct_map inj_on_def)
  moreover have "set (export_cells st k) \<inter> set (obj_cells st k) = {}"
    by (auto simp: export_cells_mem obj_cells_def)
  ultimately show ?case using Suc by (simp add: export_cells_Suc)
qed

lemma count_list_distinct: "distinct xs \<Longrightarrow> x \<in> set xs \<Longrightarrow> count_list xs x = 1"
  by (induction xs) auto

text \<open>
  C5: when all the symbol files have been read, the chain \<open>exportedBy\<close> of every symbol
  holds the cells of the export arrays that name the symbol, in the order in which their
  objects were read (and in the order of the array within an object); every cell of an
  export array is in the chain of its symbol exactly once. \<open>fixupObj\<close> builds the chain by
  appending each cell at the tail.
\<close>

theorem exporter_list_ingest_order:
  assumes "scan_files force files None init_state = Inr (st, l)"
  shows "sym_exportedBy st n =
           filter (\<lambda>x. cell_sym st x = n) (export_cells st (length (fileList st)))
     \<and> (\<forall>f i. f < length (fileList st) \<and> i < length (obj_exports (fileList st ! f)) \<longrightarrow>
           count_list (sym_exportedBy st (cell_sym st (f, i))) (f, i) = 1)
     \<and> (\<forall>st0 f i m. tfind st0 (cell_sym st0 (f, i)) \<noteq> None \<longrightarrow>
           sym_exportedBy (fixup_export f i st0) m =
             sym_exportedBy st0 m @ (if cell_sym st0 (f, i) = m then [(f, i)] else []))"
proof -
  from fixed_up_scan_files [OF assms fixed_up_init_state]
  have eb: "\<And>n. sym_exportedBy st n =
           filter (\<lambda>x. cell_sym st x = n) (export_cells st (length (fileList st)))"
    unfolding fixed_up_def by blast
  have "count_list (sym_exportedBy st (cell_sym st (f, i))) (f, i) = 1"
    if "f < length (fileList st)" "i < length (obj_exports (fileList st ! f))" for f i
  proof -
    let ?xs = "filter (\<lambda>x. cell_sym st x = cell_sym st (f, i)) (export_cells st (length (fileList st)))"
    have "distinct ?xs"
      by (simp add: distinct_export_cells)
    moreover have "(f, i) \<in> set ?xs"
      using that by (simp add: export_cells_mem)
    ultimately show ?thesis
      unfolding eb by (rule count_list_distinct)
  qed
  with eb [of n] fixup_export_props(1) show ?thesis
    by blast
qed

theorem exporter_list_ingest_order_witness:
  "\<exists>st l. scan_files False example_files None init_state = Inr (st, l)
      \<and> sym_exportedBy st ''foo'' = [(1, 0), (2, 1)]
      \<and> sym_exportedBy st ''bar'' = [(2, 0)]"
proof -
  have "case scan_files False example_files None init_state of
          Inl e \<Rightarrow> False
        | Inr (st, l) \<Rightarrow>
            map obj_exports (fileList st) =
              [[], [\<lparr>xsym = ''foo'', xobj = 1, xweak = False\<rparr>],
               [\<lparr>xsym = ''bar'', xobj = 2, xweak = False\<rparr>,
                \<lparr>xsym = ''foo'', xobj = 2, xweak = False\<rparr>]]"
    by code_simp
  then obtain st l where s: "scan_files False example_files None init_state = Inr (st, l)"
    and fl: "map obj_exports (fileList st) =
              [[], [\<lparr>xsym = ''foo'', xobj = 1, xweak = False\<rparr>],
               [\<lparr>xsym = ''bar'', xobj = 2, xweak = False\<rparr>,
                \<lparr>xsym = ''foo'', xobj = 2, xweak = False\<rparr>]]"
    by (auto split: sum.splits)
  from fl have len: "length (fileList st) = 3"
    by (metis length_map length_Cons list.size(3) numeral_3_eq_3)
  have n: "obj_exports (fileList st ! i) = map obj_exports (fileList st) ! i" if "i < 3" for i
    using that len by simp
  have e: "obj_exports (fileList st ! 0) = []"
    "obj_exports (fileList st ! Suc 0) = [\<lparr>xsym = ''foo'', xobj = 1, xweak = False\<rparr>]"
    "obj_exports (fileList st ! 2) = [\<lparr>xsym = ''bar'', xobj = 2, xweak = False\<rparr>,
                \<lparr>xsym = ''foo'', xobj = 2, xweak = False\<rparr>]"
    by (simp_all add: n fl)
  note e' = e e(3) [unfolded numeral_2_eq_2]
  have c: "export_cells st 3 = [(1, 0), (2, 0), (2, 1)]"
    by (simp add: export_cells_def obj_cells_def e' upt_rec numeral_3_eq_3)
  from exporter_list_ingest_order [OF s]
  have "sym_exportedBy st n = filter (\<lambda>x. cell_sym st x = n) (export_cells st 3)" for n
    unfolding len by blast
  then have "sym_exportedBy st ''foo'' = [(1, 0), (2, 1)]" "sym_exportedBy st ''bar'' = [(2, 0)]"
    by (simp_all add: c cell_sym_def e')
  with s show ?thesis by blast
qed

subsection \<open>Linking: a first file without objects\<close>

text \<open>
  C1 fails on the code when the first symbol file holds no object. \<open>main\<close> then sets
  \<open>lastAppObj\<close> to \<open>fileListTail\<close>, which is still \<open>undefSymPod\<close>; the linking loop starts
  after \<open>undefSymPod\<close>, so \<open>f == lastAppObj\<close> never holds and the seed set stays
  \<open>Application\<close>: the object \<open>b.o\<close> of the second file, which no mandatory object
  reaches (there is none), is put into \<open>Application\<close>, and \<open>Optional\<close> stays empty.
\<close>

theorem main_link_no_mandatory_object:
  "case main_link False example_no_mandatory of
     Inl e \<Rightarrow> False
   | Inr st \<Rightarrow>
       map obj_name (fileList st) = [''<UNDEFINED>'', ''b.o'']
       \<and> anchor st 1 = Some appLinkSet
       \<and> linkSet st appLinkSet = [1]
       \<and> linkSet st optionalLinkSet = []"
  by code_simp

subsection \<open>The scan for multiple definitions\<close>

text \<open>
  C4 fails on the code. With three mandatory objects \<open>y.o\<close> (1), \<open>z.o\<close> (2), both
  defining \<open>A\<close> and \<open>B\<close>, and \<open>x.o\<close> (3) defining \<open>A\<close>, the \<open>Application\<close> set is scanned
  from \<open>x.o\<close>: the clash of \<open>A\<close> is reported and all three exporters are marked \<open>BUSY\<close>,
  so \<open>z.o\<close> and \<open>y.o\<close> are skipped and the clash of \<open>B\<close>, a symbol of type \<open>T\<close> with two
  exporters in the set, is never reported.
\<close>

theorem checkMultipleDefs_omits_clash:
  "case main_link False example_clashes of
     Inl e \<Rightarrow> False
   | Inr st \<Rightarrow>
       linkSet st appLinkSet = [3, 2, 1]
       \<and> sym_exportedBy st ''B'' = [(1, 1), (2, 1)]
       \<and> sym_type_of st ''B'' = Some CHR ''T''
       \<and> (case checkMultipleDefs appLinkSet st of
             Inl e \<Rightarrow> False
           | Inr (st', log) \<Rightarrow>
               log = [(''A'', CHR ''T'', [(1, False), (2, False), (3, False)])])"
  by code_simp

subsection \<open>The traversal writes \<open>work\<close> slots only\<close>

lemma length_set_work [simp]: "length (fileList (set_work g w st)) = length (fileList st)"
  by (simp add: set_work_def obj_modify_def)

lemma work_of_set_work:
  "work_of (set_work g w st) h =
     (if h = g \<and> g < length (fileList st) then w else work_of st h)"
  by (auto simp: set_work_def obj_modify_def work_of_def list_update_beyond not_less)

lemma unworked_set_work [simp]: "unworked (set_work g w st) = unworked st"
proof -
  let ?F = "\<lambda>d. d\<lparr>work := WorkNull\<rparr>"
  have "map ?F ((fileList st)[g := (fileList st ! g)\<lparr>work := w\<rparr>]) = map ?F (fileList st)"
  proof (cases "g < length (fileList st)")
    case True
    have "map ?F ((fileList st)[g := (fileList st ! g)\<lparr>work := w\<rparr>]) =
          (map ?F (fileList st))[g := map ?F (fileList st) ! g]"
      using True by (simp add: map_update)
    then show ?thesis by simp
  next
    case False
    then show ?thesis by (simp add: list_update_beyond)
  qed
  then show ?thesis
    by (simp add: unworked_def set_work_def obj_modify_def)
qed

lemma unworked_depPrint [simp]: "unworked (depPrint f depth st) = unworked st"
  by (simp add: unworked_def depPrint_def)

lemma length_depPrint [simp]: "length (fileList (depPrint f depth st)) = length (fileList st)"
  by (simp add: depPrint_def)

lemma work_of_depPrint [simp]: "work_of (depPrint f depth st) = work_of st"
  by (simp add: depPrint_def work_of_def fun_eq_iff)

lemma unworked_fields:
  assumes "unworked st' = unworked st"
  shows "length (fileList st') = length (fileList st)"
    and "symTbl st' = symTbl st" and "linkSet st' = linkSet st"
    and "walkBuildList st' = walkBuildList st" and "walkExports st' = walkExports st"
    and "depwalkAction st' = depwalkAction st" and "warnings st' = warnings st"
    and "libList st' = libList st" and "fileListIndex st' = fileListIndex st"
proof -
  from assms have "fileList (unworked st') = fileList (unworked st)" by simp
  then have "map (\<lambda>d. d\<lparr>work := WorkNull\<rparr>) (fileList st') =
      map (\<lambda>d. d\<lparr>work := WorkNull\<rparr>) (fileList st)"
    by (simp add: unworked_def)
  then show "length (fileList st') = length (fileList st)"
    by (rule map_eq_imp_length_eq)
  from assms have "symTbl (unworked st') = symTbl (unworked st)" by simp
  then show "symTbl st' = symTbl st" by (simp add: unworked_def)
  from assms have "linkSet (unworked st') = linkSet (unworked st)" by simp
  then show "linkSet st' = linkSet st" by (simp add: unworked_def)
  from assms have "walkBuildList (unworked st') = walkBuildList (unworked st)" by simp
  then show "walkBuildList st' = walkBuildList st" by (simp add: unworked_def)
  from assms have "walkExports (unworked st') = walkExports (unworked st)" by simp
  then show "walkExports st' = walkExports st" by (simp add: unworked_def)
  from assms have "depwalkAction (unworked st') = depwalkAction (unworked st)" by simp
  then show "depwalkAction st' = depwalkAction st" by (simp add: unworked_def)
  from assms have "warnings (unworked st') = warnings (unworked st)" by simp
  then show "warnings st' = warnings st" by (simp add: unworked_def)
  from assms have "libList (unworked st') = libList (unworked st)" by simp
  then show "libList st' = libList st" by (simp add: unworked_def)
  from assms have "fileListIndex (unworked st') = fileListIndex (unworked st)" by simp
  then show "fileListIndex st' = fileListIndex st" by (simp add: unworked_def)
qed

lemma unworked_objs:
  assumes "unworked st' = unworked st" and "h < length (fileList st)"
  shows "obj_exports (fileList st' ! h) = obj_exports (fileList st ! h)"
    and "obj_imports (fileList st' ! h) = obj_imports (fileList st ! h)"
    and "link_anchor (fileList st' ! h) = link_anchor (fileList st ! h)"
    and "obj_name (fileList st' ! h) = obj_name (fileList st ! h)"
    and "obj_lib (fileList st' ! h) = obj_lib (fileList st ! h)"
proof -
  let ?F = "\<lambda>d. d\<lparr>work := WorkNull\<rparr>"
  from assms(1) have "fileList (unworked st') = fileList (unworked st)" by simp
  then have m: "map ?F (fileList st') = map ?F (fileList st)"
    by (simp add: unworked_def)
  from unworked_fields(1) [OF assms(1)] assms(2) have h: "h < length (fileList st')" by simp
  have "map ?F (fileList st') ! h = map ?F (fileList st) ! h"
    using m by simp
  with h assms(2) have e: "?F (fileList st' ! h) = ?F (fileList st ! h)"
    by simp
  from arg_cong [OF e, of obj_exports]
  show "obj_exports (fileList st' ! h) = obj_exports (fileList st ! h)" by simp
  from arg_cong [OF e, of obj_imports]
  show "obj_imports (fileList st' ! h) = obj_imports (fileList st ! h)" by simp
  from arg_cong [OF e, of link_anchor]
  show "link_anchor (fileList st' ! h) = link_anchor (fileList st ! h)" by simp
  from arg_cong [OF e, of obj_name]
  show "obj_name (fileList st' ! h) = obj_name (fileList st ! h)" by simp
  from arg_cong [OF e, of obj_lib]
  show "obj_lib (fileList st' ! h) = obj_lib (fileList st ! h)" by simp
qed

lemma unworked_walk_targets:
  assumes "unworked st' = unworked st" and "h < length (fileList st)"
  shows "walk_targets st' h = walk_targets st h"
  by (simp add: walk_targets_def unworked_fields [OF assms(1)] unworked_objs [OF assms]
      sym_importedFrom_def sym_exportedBy_def tfind_def)

lemma unworked_eq_fileList:
  assumes "unworked st' = unworked st"
    and "\<forall>h<length (fileList st). work_of st' h = work_of st h"
  shows "fileList st' = fileList st"
proof (rule nth_equalityI)
  show "length (fileList st') = length (fileList st)"
    using assms(1) by (rule unworked_fields)
next
  fix h assume "h < length (fileList st')"
  then have h: "h < length (fileList st)"
    by (simp add: unworked_fields(1) [OF assms(1)])
  note o = unworked_objs [OF assms(1) h]
  from assms(2) h have "work (fileList st' ! h) = work (fileList st ! h)"
    by (simp add: work_of_def)
  with o show "fileList st' ! h = fileList st ! h"
    by (intro ObjFRec.equality) simp_all
qed


subsection \<open>The work list\<close>

lemma chain_cong: "\<forall>x\<in>set l. w' x = w x \<Longrightarrow> chain w' l = chain w l"
  by (induction w l rule: chain.induct) auto

lemma chain_nonnull: "chain w l \<Longrightarrow> x \<in> set l \<Longrightarrow> w x \<noteq> WorkNull"
  by (induction w l rule: chain.induct) auto

lemma chain_suffix: "chain w (xs @ y # ys) \<Longrightarrow> chain w (y # ys)"
proof (induction xs)
  case Nil
  then show ?case by simp
next
  case (Cons x xs)
  then show ?case by (cases xs) auto
qed

lemma ins_after_Cons: "\<exists>r. ins_after f g (y # l) = y # r"
  by simp

lemma set_ins_after: "f \<in> set l \<Longrightarrow> set (ins_after f g l) = insert g (set l)"
  by (induction l) auto

lemma distinct_ins_after: "distinct l \<Longrightarrow> g \<notin> set l \<Longrightarrow> distinct (ins_after f g l)"
proof (induction l)
  case Nil
  then show ?case by simp
next
  case (Cons x l)
  show ?case
  proof (cases "f \<in> set l")
    case True
    with Cons show ?thesis by (auto simp: set_ins_after)
  next
    case False
    then have "ins_after f g l = l" by (induction l) auto
    with Cons show ?thesis by auto
  qed
qed

lemma hd_ins_after: "hd (ins_after f g l) = hd l"
  by (cases l) auto

lemma length_ins_after: "f \<in> set l \<Longrightarrow> length (ins_after f g l) = Suc (length l)"
  by (induction l) auto

lemma chain_ins_after:
  assumes "chain w l" and "distinct l" and "f \<in> set l" and "g \<notin> set l"
  shows "chain (w(g := w f, f := WorkObj g)) (ins_after f g l)"
  using assms
proof (induction w l rule: chain.induct)
  case (1 w)
  then show ?case by simp
next
  case (2 w x)
  then show ?case by auto
next
  case (3 w x y l)
  let ?w = "w(g := w f, f := WorkObj g)"
  show ?case
  proof (cases "x = f")
    case True
    with "3.prems" have "\<forall>z\<in>set (y # l). ?w z = w z" by auto
    then have "chain ?w (y # l) = chain w (y # l)" by (rule chain_cong)
    with "3.prems"(1) have 1: "chain ?w (y # l)" by simp
    from "3.prems"(3,4) have gf: "g \<noteq> f" by auto
    from "3.prems"(1) True have wf: "w f = WorkObj y" by simp
    have 2: "?w f = WorkObj g" "?w g = WorkObj y" by (simp_all add: gf wf)
    have 3: "chain ?w (f # g # y # l)"
      using 1 2 by (simp del: fun_upd_apply)
    have "ins_after f g (x # y # l) = f # g # y # l"
      using True by simp
    then show ?thesis using 3 by (simp only:)
  next
    case False
    with "3.prems" have ih: "chain ?w (ins_after f g (y # l))"
      by (intro "3.IH") auto
    obtain r where r: "ins_after f g (y # l) = y # r"
      using ins_after_Cons by blast
    have ia: "ins_after f g (x # y # l) = x # y # r"
      using False r by simp
    from "3.prems" False have "x \<noteq> f" "x \<noteq> g" "w x = WorkObj y" by auto
    then have wx: "?w x = WorkObj y" by simp
    from ih r have c: "chain ?w (y # r)" by (simp only:)
    have "chain ?w (x # y # r)"
      using wx c by (simp del: fun_upd_apply)
    then show ?thesis unfolding ia .
  qed
qed

lemma work_list_length:
  assumes "work_list st l"
  shows "length l \<le> length (fileList st)" and "l \<noteq> []"
proof -
  from assms have d: "distinct l" and s: "set l \<subseteq> {..<length (fileList st)}"
    and c: "chain (work_of st) l"
    by (auto simp: work_list_def)
  have "length l = card (set l)" using d by (simp add: distinct_card)
  also have "\<dots> \<le> card {..<length (fileList st)}" using s by (intro card_mono) auto
  finally show "length l \<le> length (fileList st)" by simp
  from c show "l \<noteq> []" by auto
qed

lemma work_list_marked:
  assumes "work_list st l" and "g < length (fileList st)"
  shows "g \<in> set l \<longleftrightarrow> work_of st g \<noteq> WorkNull"
  using assms by (auto simp: work_list_def dest: chain_nonnull)

lemma work_list_insert:
  assumes "work_list st l" and "f \<in> set l" and "g < length (fileList st)"
    and "work_of st g = WorkNull"
  shows "work_list (set_work f (WorkObj g) (set_work g (work_of st f) st)) (ins_after f g l)"
proof -
  let ?st = "set_work f (WorkObj g) (set_work g (work_of st f) st)"
  from assms have c: "chain (work_of st) l" and d: "distinct l"
    and b: "\<forall>h\<in>set l. h < length (fileList st)"
    and o: "\<forall>h<length (fileList st). h \<notin> set l \<longrightarrow> work_of st h = WorkNull"
    by (auto simp: work_list_def)
  from work_list_marked [OF assms(1,3)] assms(4) have g: "g \<notin> set l" by simp
  from b assms(2) have f: "f < length (fileList st)" by blast
  have w: "work_of ?st = (work_of st)(g := work_of st f, f := WorkObj g)"
    using f assms(3) by (auto simp: fun_eq_iff work_of_set_work)
  have "chain (work_of ?st) (ins_after f g l)"
    unfolding w using c d assms(2) g by (rule chain_ins_after)
  moreover have "distinct (ins_after f g l)"
    using d g by (rule distinct_ins_after)
  moreover have "\<forall>h\<in>set (ins_after f g l). h < length (fileList ?st)"
    using b assms(2,3) by (simp add: set_ins_after)
  moreover have "\<forall>h<length (fileList ?st). h \<notin> set (ins_after f g l) \<longrightarrow> work_of ?st h = WorkNull"
    using o assms(2) by (auto simp: set_ins_after w)
  ultimately show ?thesis
    by (simp add: work_list_def)
qed

lemma workList_chain:
  "chain (work_of st) (x # l) \<Longrightarrow> length l < fuel \<Longrightarrow>
   workList fuel st (WorkObj x) = Some (x # l)"
proof (induction l arbitrary: x fuel)
  case Nil
  then show ?case by (cases fuel) auto
next
  case (Cons y l)
  then obtain n where n: "fuel = Suc n" by (cases fuel) auto
  with Cons.prems have "workList n st (WorkObj y) = Some (y # l)"
    by (intro Cons.IH) auto
  with n Cons.prems show ?case by simp
qed

lemma work_list_from:
  assumes "work_list st l" and "f \<in> set l"
  shows "\<exists>xs ys. l = xs @ f # ys \<and> f \<notin> set ys \<and>
          workList (length (fileList st)) st (WorkObj f) = Some (f # ys)"
proof -
  from assms(2) obtain xs ys where l: "l = xs @ f # ys"
    by (auto simp: in_set_conv_decomp)
  from assms(1) have c: "chain (work_of st) l" and d: "distinct l"
    by (auto simp: work_list_def)
  from c l have "chain (work_of st) (f # ys)"
    by (auto dest: chain_suffix)
  moreover from work_list_length(1) [OF assms(1)] l have "length ys < length (fileList st)"
    by simp
  ultimately have "workList (length (fileList st)) st (WorkObj f) = Some (f # ys)"
    by (rule workList_chain)
  with l d show ?thesis by auto
qed

lemma foldE_circ:
  "f \<notin> set ys \<Longrightarrow>
   foldE (\<lambda>(g, depth) result. Inr (if depth > 0 \<and> g = f then - 1 else result))
     (zip ys ds) (r::int) = Inr r"
proof (induction ys arbitrary: ds)
  case Nil
  then show ?case by simp
next
  case (Cons y ys)
  then show ?case by (cases ds) auto
qed

lemma checkCircWorkList_ok:
  assumes "work_list st l" and "f \<in> set l"
  shows "checkCircWorkList st f = Inr 0"
proof -
  from work_list_from [OF assms] obtain ys where
    ys: "f \<notin> set ys" "workList (length (fileList st)) st (WorkObj f) = Some (f # ys)"
    by blast
  have "[0..<length (f # ys)] = 0 # [Suc 0..<length (f # ys)]"
    by (rule upt_conv_Cons) simp
  then have "zip (f # ys) [0..<length (f # ys)] = (f, 0) # zip ys [Suc 0..<length (f # ys)]"
    by (simp only: zip_Cons_Cons)
  then show ?thesis
    unfolding checkCircWorkList_def workListIterate_def ys(2)
    by (simp only: option.case foldE.simps) (simp add: foldE_circ [OF ys(1)])
qed

subsection \<open>The expansion of an object\<close>

lemma walk_targets_lt:
  assumes "xrefs_ok st" and "g \<in> set (walk_targets st f)"
  shows "g < length (fileList st)"
proof -
  have k: "xref_obj r < length (fileList st)"
    if "tfind st n = Some s" "r \<in> set (exportedBy s) \<union> set (importedFrom s)" for r n s
    using that assms(1) unfolding xrefs_ok_def by blast
  have i: "xref_obj r < length (fileList st)" if "r \<in> set (sym_importedFrom st n)" for r n
  proof (cases "tfind st n")
    case None
    with that show ?thesis by (simp add: sym_importedFrom_def)
  next
    case (Some s)
    with that k [OF Some, of r] show ?thesis by (simp add: sym_importedFrom_def)
  qed
  have e: "xref_obj r < length (fileList st)" if "r \<in> set (sym_exportedBy st n)" for r n
  proof (cases "tfind st n")
    case None
    with that show ?thesis by (simp add: sym_exportedBy_def)
  next
    case (Some s)
    with that k [OF Some, of r] show ?thesis by (simp add: sym_exportedBy_def)
  qed
  from assms(2) show ?thesis
    by (auto simp: walk_targets_def split: if_splits dest!: in_set_takeD intro: i e)
qed

lemma unworked_xrefs_ok:
  assumes "unworked st' = unworked st"
  shows "xrefs_ok st' = xrefs_ok st"
  by (simp add: xrefs_ok_def tfind_def unworked_fields(1,2) [OF assms])

lemma unworked_self_target:
  assumes "unworked st' = unworked st"
  shows "self_target st' = self_target st"
  using unworked_walk_targets [OF assms] unworked_fields(1) [OF assms]
  by (auto simp: self_target_def)

lemma unworked_walk_rel:
  assumes "unworked st' = unworked st"
  shows "walk_rel st' = walk_rel st"
  using unworked_walk_targets [OF assms] unworked_fields(1) [OF assms]
  by (auto simp: walk_rel_def)

lemma unworked_self_target_from:
  assumes "unworked st' = unworked st"
  shows "self_target_from st' f = self_target_from st f"
  using unworked_walk_targets [OF assms] unworked_fields(1) [OF assms]
  by (auto simp: self_target_from_def unworked_walk_rel [OF assms])

lemma self_target_from_step:
  assumes "(f, g) \<in> walk_rel st" and "self_target_from st g"
  shows "self_target_from st f"
proof -
  from assms(2) obtain k where k: "k < length (fileList st)" "(g, k) \<in> (walk_rel st)\<^sup>*"
    "k \<in> set (walk_targets st k)"
    unfolding self_target_from_def by blast
  from assms(1) k(2) have "(f, k) \<in> (walk_rel st)\<^sup>*"
    by (rule converse_rtrancl_into_rtrancl)
  with k(1,3) show ?thesis
    unfolding self_target_from_def by blast
qed

lemma self_target_from_self_target: "self_target_from st f \<Longrightarrow> self_target st"
  by (auto simp: self_target_from_def self_target_def)

lemma work_list_cong:
  assumes "fileList st' = fileList st"
  shows "work_list st' l = work_list st l"
proof -
  have "work_of st' = work_of st"
    using assms by (simp add: work_of_def fun_eq_iff)
  with assms show ?thesis by (simp add: work_list_def)
qed

lemma distinct_subset_length:
  assumes "distinct l" and "set l \<subseteq> set l'"
  shows "length l \<le> length l'"
proof -
  have "length l = card (set l)" using assms(1) by (simp add: distinct_card)
  also have "\<dots> \<le> card (set l')" using assms(2) by (intro card_mono) auto
  also have "\<dots> \<le> length l'" by (rule card_length)
  finally show ?thesis .
qed

lemma walk_ref_step:
  assumes ok: "\<And>g d st l. walk_pre n st g l \<Longrightarrow> walk_post st g l (depwalk_rec n g d st)"
    and inv: "walk_inv st0 f l0 st lc"
    and f: "f \<in> set lc"
    and x: "xrefs_ok st0"
    and fuel: "length (fileList st0) < Suc n + length lc"
    and g: "g \<in> set (walk_targets st0 f)"
  shows "case walk_ref (depwalk_rec n) f d g st of
           Inl e \<Rightarrow> e = AssertFailed ''ref->obj != f'' \<and> self_target_from st0 f
         | Inr st' \<Rightarrow>
             g \<noteq> f \<and>
             (\<exists>l'. walk_inv st0 f l0 st' l' \<and> set lc \<subseteq> set l' \<and>
                   (walkBuildList st0 \<longrightarrow> g \<in> set l'))"
proof -
  from inv have u: "unworked st = unworked st0" and wl: "work_list st lc"
    and hd: "hd lc = hd l0" and sub: "set l0 \<subseteq> set lc"
    and nc: "walkBuildList st0 \<longrightarrow> new_closed st0 f l0 lc"
    and dir: "\<not> walkBuildList st0 \<longrightarrow> fileList st = fileList st0"
    by (simp_all add: walk_inv_def)
  note len = unworked_fields(1) [OF u]
  from wl f have fN: "f < length (fileList st)" by (auto simp: work_list_def)
  from walk_targets_lt [OF x g] len have gN: "g < length (fileList st)" by simp
  show ?thesis
  proof (cases "g = f")
    case True
    with g fN len have "self_target_from st0 f" by (auto simp: self_target_from_def)
    with True show ?thesis by (simp add: walk_ref_def)
  next
    case False
    show ?thesis
    proof (cases "work_of st g = WorkNull")
      case nonnull: False
      with work_list_marked [OF wl gN] have "g \<in> set lc" by simp
      with False nonnull inv show ?thesis
        by (auto simp: walk_ref_def)
    next
      case null: True
      let ?st1 = "set_work g (work_of st f) st"
      let ?st2 = "set_work f (WorkObj g) ?st1"
      let ?l2 = "ins_after f g lc"
      have wl2: "work_list ?st2 ?l2"
        using wl f gN null by (rule work_list_insert)
      have u2: "unworked ?st2 = unworked st0" using u by simp
      have s2: "set ?l2 = insert g (set lc)" using f by (rule set_ins_after)
      have cc: "checkCircWorkList ?st2 f = Inr 0"
        using wl2 by (rule checkCircWorkList_ok) (simp add: s2 f)
      have x2: "xrefs_ok ?st2" using x by (simp add: unworked_xrefs_ok [OF u2])
      have "walk_pre n ?st2 g ?l2"
        using wl2 x2 fuel len by (simp add: walk_pre_def s2 length_ins_after [OF f])
      then have post: "walk_post ?st2 g ?l2 (depwalk_rec n g (d + 1) ?st2)"
        by (rule ok)
      have wr: "walk_ref (depwalk_rec n) f d g st =
          (case depwalk_rec n g (d + 1) ?st2 of
             Inl e \<Rightarrow> Inl e
           | Inr st3 \<Rightarrow>
               if \<not> walkBuildList st3
               then Inr (set_work g WorkNull (set_work f (work_of st3 g) st3))
               else Inr st3)"
        using False null cc by (simp add: walk_ref_def Let_def)
      show ?thesis
      proof (cases "depwalk_rec n g (d + 1) ?st2")
        case (Inl e)
        with post have "e = AssertFailed ''ref->obj != f''" "self_target_from ?st2 g"
          by (simp_all add: walk_post_def)
        moreover have "(f, g) \<in> walk_rel st0"
          using g fN len by (simp add: walk_rel_def)
        ultimately have "e = AssertFailed ''ref->obj != f''" "self_target_from st0 f"
          using unworked_self_target_from [OF u2, of g] by (auto intro: self_target_from_step)
        with Inl show ?thesis
          by (simp add: wr)
      next
        case (Inr st3)
        with post obtain l3 where gg: "g \<notin> set (walk_targets ?st2 g)"
          and inv3: "walk_inv ?st2 g ?l2 st3 l3"
          and tg: "walkBuildList ?st2 \<longrightarrow> set (walk_targets ?st2 g) \<subseteq> set l3"
          by (auto simp: walk_post_def)
        from inv3 have u3: "unworked st3 = unworked ?st2" and wl3: "work_list st3 l3"
          and hd3: "hd l3 = hd ?l2" and sub3: "set ?l2 \<subseteq> set l3"
          and nc3: "walkBuildList ?st2 \<longrightarrow> new_closed ?st2 g ?l2 l3"
          and dir3: "\<not> walkBuildList ?st2 \<longrightarrow> fileList st3 = fileList ?st2"
          by (simp_all add: walk_inv_def)
        have u30: "unworked st3 = unworked st0" using u3 u2 by simp
        have b2: "walkBuildList ?st2 = walkBuildList st0"
          using u2 by (rule unworked_fields)
        have b3: "walkBuildList st3 = walkBuildList st0"
          using u30 by (rule unworked_fields)
        have t2: "walk_targets ?st2 h = walk_targets st0 h" if "h < length (fileList st0)" for h
          using u2 that by (rule unworked_walk_targets)
        have r2: "walk_rel ?st2 = walk_rel st0"
          using u2 by (rule unworked_walk_rel)
        show ?thesis
        proof (cases "walkBuildList st0")
          case True
          have fg: "(f, g) \<in> walk_rel st0"
            using g fN len by (simp add: walk_rel_def)
          have "new_closed st0 f l0 l3"
            unfolding new_closed_def
          proof
            fix h assume h: "h \<in> set l3 - set l0"
            with wl3 unworked_fields(1) [OF u30] have hN: "h < length (fileList st0)"
              by (auto simp: work_list_def)
            consider "h \<in> set lc" | "h = g" | "h \<in> set l3 - set ?l2"
              using h s2 by auto
            then show "set (walk_targets st0 h) \<subseteq> set l3 \<and> (f, h) \<in> (walk_rel st0)\<^sup>+ \<and>
                h \<notin> set (walk_targets st0 h)"
            proof cases
              case 1
              with h nc True have "set (walk_targets st0 h) \<subseteq> set lc"
                "(f, h) \<in> (walk_rel st0)\<^sup>+" "h \<notin> set (walk_targets st0 h)"
                by (auto simp: new_closed_def)
              with sub3 s2 show ?thesis by auto
            next
              case 2
              with tg gg t2 [OF hN] True b2 fg show ?thesis by auto
            next
              case 3
              with nc3 True b2 have "set (walk_targets ?st2 h) \<subseteq> set l3"
                "(g, h) \<in> (walk_rel ?st2)\<^sup>+" "h \<notin> set (walk_targets ?st2 h)"
                by (auto simp: new_closed_def)
              with t2 [OF hN] r2 fg show ?thesis by auto
            qed
          qed
          with True u30 wl3 hd3 hd sub sub3 s2 have "walk_inv st0 f l0 st3 l3"
            by (auto simp: walk_inv_def hd_ins_after)
          moreover have "set lc \<subseteq> set l3" "g \<in> set l3" using sub3 s2 by auto
          moreover have "walk_ref (depwalk_rec n) f d g st = Inr st3"
            using Inr True b3 by (simp add: wr)
          ultimately show ?thesis using False by auto
        next
          case direct: False
          let ?st4 = "set_work g WorkNull (set_work f (work_of st3 g) st3)"
          from dir3 direct b2 have fl3: "fileList st3 = fileList ?st2" by simp
          then have w3: "work_of st3 = work_of ?st2" by (simp add: work_of_def fun_eq_iff)
          have l3: "length (fileList st3) = length (fileList st)" using fl3 by simp
          have "\<forall>h<length (fileList st). work_of ?st4 h = work_of st h"
            using False null fN gN by (auto simp: work_of_set_work l3 w3)
          moreover have "unworked ?st4 = unworked st" using u30 u by simp
          ultimately have fl4: "fileList ?st4 = fileList st"
            by (intro unworked_eq_fileList)
          with dir direct have "fileList ?st4 = fileList st0" by simp
          moreover have "work_list ?st4 lc" using wl by (simp add: work_list_cong [OF fl4])
          moreover have "unworked ?st4 = unworked st0" using u30 by simp
          ultimately have "walk_inv st0 f l0 ?st4 lc"
            using direct hd sub by (simp add: walk_inv_def)
          moreover have "walk_ref (depwalk_rec n) f d g st = Inr ?st4"
            using Inr direct b3 by (simp add: wr)
          ultimately show ?thesis using False direct by auto
        qed
      qed
    qed
  qed
qed


lemma walk_loop:
  assumes ok: "\<And>g d st l. walk_pre n st g l \<Longrightarrow> walk_post st g l (depwalk_rec n g d st)"
    and inv: "walk_inv st0 f l0 st lc"
    and f: "f \<in> set l0"
    and x: "xrefs_ok st0"
    and wl0: "work_list st0 l0"
    and fuel: "length (fileList st0) < Suc n + length l0"
    and ts: "set ts \<subseteq> set (walk_targets st0 f)"
  shows "case foldE (walk_ref (depwalk_rec n) f d) ts st of
           Inl e \<Rightarrow> e = AssertFailed ''ref->obj != f'' \<and> self_target_from st0 f
         | Inr st' \<Rightarrow>
             f \<notin> set ts \<and>
             (\<exists>l'. walk_inv st0 f l0 st' l' \<and> set lc \<subseteq> set l' \<and>
                   (walkBuildList st0 \<longrightarrow> set ts \<subseteq> set l'))"
  using inv ts
proof (induction ts arbitrary: st lc)
  case Nil
  then show ?case by auto
next
  case (Cons g ts)
  from Cons.prems(1) have sub: "set l0 \<subseteq> set lc" and wl: "work_list st lc"
    by (simp_all add: walk_inv_def)
  from wl0 have "distinct l0" by (simp add: work_list_def)
  from distinct_subset_length [OF this sub] fuel
  have fuel': "length (fileList st0) < Suc n + length lc" by simp
  from f sub have f': "f \<in> set lc" by blast
  from Cons.prems(2) have g: "g \<in> set (walk_targets st0 f)"
    and ts': "set ts \<subseteq> set (walk_targets st0 f)" by auto
  note step = walk_ref_step [OF ok Cons.prems(1) f' x fuel' g, of d]
  show ?case
  proof (cases "walk_ref (depwalk_rec n) f d g st")
    case (Inl e)
    with step show ?thesis by simp
  next
    case (Inr st1)
    with step obtain l1 where gf: "g \<noteq> f" and inv1: "walk_inv st0 f l0 st1 l1"
      and s1: "set lc \<subseteq> set l1" and g1: "walkBuildList st0 \<longrightarrow> g \<in> set l1"
      by auto
    note ih = Cons.IH [OF inv1 ts']
    show ?thesis
    proof (cases "foldE (walk_ref (depwalk_rec n) f d) ts st1")
      case (Inl e)
      with ih Inr show ?thesis by simp
    next
      case r: (Inr st2)
      with ih obtain l2 where "f \<notin> set ts" and inv2: "walk_inv st0 f l0 st2 l2"
        and s2: "set l1 \<subseteq> set l2" and t2: "walkBuildList st0 \<longrightarrow> set ts \<subseteq> set l2"
        by auto
      with gf s1 g1 have "f \<notin> set (g # ts)" "set lc \<subseteq> set l2"
        "walkBuildList st0 \<longrightarrow> set (g # ts) \<subseteq> set l2"
        by auto
      with inv2 Inr r show ?thesis by auto
    qed
  qed
qed

lemma walk_inv_refl: "work_list st l \<Longrightarrow> walk_inv st f l st l"
  by (simp add: walk_inv_def new_closed_def)

lemma depwalk_rec_post:
  "walk_pre n st f l \<Longrightarrow> walk_post st f l (depwalk_rec n f d st)"
proof (induction n arbitrary: st f l d)
  case 0
  then have "work_list st l" "length (fileList st) < length l"
    by (simp_all add: walk_pre_def)
  with work_list_length(1) [of st l] show ?case by simp
next
  case (Suc n)
  from Suc.prems have wl: "work_list st l" and f: "f \<in> set l" and x: "xrefs_ok st"
    and fuel: "length (fileList st) < Suc n + length l"
    by (simp_all add: walk_pre_def)
  let ?st1 = "if depwalkAction st then depPrint f d st else st"
  have u1: "unworked ?st1 = unworked st" by simp
  have fl1: "fileList ?st1 = fileList st" by (simp add: depPrint_def)
  have t1: "walk_targets ?st1 = walk_targets st"
    by (simp add: walk_targets_def depPrint_def fun_eq_iff sym_importedFrom_def
        sym_exportedBy_def tfind_def)
  have r1: "walk_rel ?st1 = walk_rel st"
    unfolding walk_rel_def t1 fl1 ..
  have b1: "walkBuildList ?st1 = walkBuildList st" by (simp add: depPrint_def)
  have s1: "self_target_from ?st1 f = self_target_from st f"
    unfolding self_target_from_def t1 r1 fl1 ..
  have wl1: "work_list ?st1 l" using wl by (simp add: work_list_cong [OF fl1])
  have x1: "xrefs_ok ?st1" using x by (simp add: unworked_xrefs_ok [OF u1])
  have fuel1: "length (fileList ?st1) < Suc n + length l" using fuel by (simp add: fl1)
  have e: "depwalk_rec (Suc n) f d st =
      foldE (walk_ref (depwalk_rec n) f d) (walk_targets ?st1 f) ?st1"
    by (simp add: Let_def)
  note loop = walk_loop [where n = n and d = d, OF Suc.IH walk_inv_refl [OF wl1] f x1 wl1 fuel1
      subset_refl]
  show ?case
  proof (cases "depwalk_rec (Suc n) f d st")
    case (Inl err)
    with loop e s1 show ?thesis
      by (simp add: walk_post_def)
  next
    case (Inr st')
    with loop e obtain l' where nf: "f \<notin> set (walk_targets ?st1 f)"
      and inv: "walk_inv ?st1 f l st' l'"
      and tg: "walkBuildList ?st1 \<longrightarrow> set (walk_targets ?st1 f) \<subseteq> set l'"
      by auto
    from inv have "walk_inv st f l st' l'"
      unfolding walk_inv_def new_closed_def t1 r1 b1 fl1 u1 .
    with nf tg Inr show ?thesis
      unfolding t1 b1 by (auto simp: walk_post_def)
  qed
qed

subsection \<open>A whole traversal\<close>

lemma walk_targets_flags:
  "walk_targets (st\<lparr>walkBuildList := b, walkExports := e, depwalkAction := a\<rparr>) =
   walk_targets (st\<lparr>walkExports := e\<rparr>)"
  by (simp add: walk_targets_def fun_eq_iff sym_importedFrom_def sym_exportedBy_def tfind_def)

lemma unworked_mode_rel:
  assumes "unworked st' = unworked (st\<lparr>walkBuildList := b, walkExports := e, depwalkAction := a\<rparr>)"
  shows "walk_rel st' = mode_rel e st"
    and "\<And>g. g < length (fileList st) \<Longrightarrow> walk_targets st' g = walk_targets (st\<lparr>walkExports := e\<rparr>) g"
    and "self_target st' = self_target (st\<lparr>walkExports := e\<rparr>)"
    and "\<And>g. self_target_from st' g = self_target_from (st\<lparr>walkExports := e\<rparr>) g"
proof -
  let ?s = "st\<lparr>walkBuildList := b, walkExports := e, depwalkAction := a\<rparr>"
  show t: "walk_targets st' g = walk_targets (st\<lparr>walkExports := e\<rparr>) g"
    if "g < length (fileList st)" for g
    using unworked_walk_targets [OF assms, of g] that by (simp add: walk_targets_flags)
  have l: "length (fileList st') = length (fileList st)"
    using unworked_fields(1) [OF assms] by simp
  show "walk_rel st' = mode_rel e st"
    using t l by (auto simp: walk_rel_def mode_rel_def)
  show "self_target st' = self_target (st\<lparr>walkExports := e\<rparr>)"
    using t l by (auto simp: self_target_def)
  have "walk_rel st' = walk_rel (st\<lparr>walkExports := e\<rparr>)"
    using t l by (auto simp: walk_rel_def)
  then show "self_target_from st' g = self_target_from (st\<lparr>walkExports := e\<rparr>) g" for g
    using t l by (auto simp: self_target_from_def)
qed

lemma closed_reach:
  assumes "f \<in> S" and "\<forall>g\<in>S. \<forall>h. (g, h) \<in> R \<longrightarrow> h \<in> S" and "(f, g) \<in> R\<^sup>*"
  shows "g \<in> S"
  using assms(3,1,2) by (induction rule: rtrancl_induct) auto


text \<open>Without \<open>WALK_BUILD_LIST\<close> an object is unmarked again when its expansion is over,
  so the traversal expands every object that it reaches along edges that avoid the
  objects under expansion.\<close>

lemma unmarked_rel_start:
  assumes "(h, g) \<in> (unmarked_rel st S)\<^sup>*"
  shows "(h, g) \<in> (unmarked_rel st (insert h S))\<^sup>*"
  using assms
proof (induction rule: rtrancl_induct)
  case base
  show ?case by simp
next
  case (step y z)
  show ?case
  proof (cases "z = h")
    case True
    then show ?thesis by simp
  next
    case False
    with step.hyps(2) have "(y, z) \<in> unmarked_rel st (insert h S)"
      by (simp add: unmarked_rel_def)
    with step.IH show ?thesis by (rule rtrancl_into_rtrancl)
  qed
qed

lemma unmarked_rel_lt:
  assumes "(h, g) \<in> (unmarked_rel st S)\<^sup>*" and "h < length (fileList st)" and "xrefs_ok st"
  shows "g < length (fileList st)"
  using assms(1)
proof (induction rule: rtrancl_induct)
  case base
  show ?case by (rule assms(2))
next
  case (step y z)
  then have "z \<in> set (walk_targets st y)"
    by (simp add: unmarked_rel_def walk_rel_def)
  with assms(3) show ?case by (rule walk_targets_lt)
qed

lemma unworked_unmarked_rel:
  assumes "unworked st' = unworked st"
  shows "unmarked_rel st' S = unmarked_rel st S"
  by (simp add: unmarked_rel_def unworked_walk_rel [OF assms])

lemma direct_loop:
  assumes IH: "\<And>st h l d st' g. walk_pre n st h l \<Longrightarrow> \<not> walkBuildList st \<Longrightarrow>
        depwalk_rec n h d st = Inr st' \<Longrightarrow> (h, g) \<in> (unmarked_rel st (set l))\<^sup>* \<Longrightarrow>
        g \<notin> set (walk_targets st g)"
    and wl0: "work_list st0 l" and f: "f \<in> set l" and x: "xrefs_ok st0"
    and fuel: "length (fileList st0) < Suc n + length l"
    and dir: "\<not> walkBuildList st0"
    and fl: "fileList st = fileList st0" and u: "unworked st = unworked st0"
    and ts: "set ts \<subseteq> set (walk_targets st0 f)"
    and r: "foldE (walk_ref (depwalk_rec n) f d) ts st = Inr st'"
    and h: "h \<in> set ts" and hl: "h \<notin> set l"
    and hg: "(h, g) \<in> (unmarked_rel st0 (insert h (set l)))\<^sup>*"
  shows "g \<notin> set (walk_targets st0 g)"
  using fl u ts r h
proof (induction ts arbitrary: st)
  case Nil
  then show ?case by simp
next
  case (Cons k ts)
  note fl = Cons.prems(1) and u = Cons.prems(2)
  from Cons.prems(3) have k: "k \<in> set (walk_targets st0 f)"
    and ts': "set ts \<subseteq> set (walk_targets st0 f)" by auto
  from Cons.prems(4) obtain st1 where w: "walk_ref (depwalk_rec n) f d k st = Inr st1"
    and r': "foldE (walk_ref (depwalk_rec n) f d) ts st1 = Inr st'"
    by (auto split: sum.splits)
  have wl: "work_list st l" using wl0 by (simp add: work_list_cong [OF fl])
  have inv: "walk_inv st0 f l st l"
    using u wl dir fl by (simp add: walk_inv_def)
  from walk_ref_step [OF depwalk_rec_post inv f x fuel k, of d] w
  obtain l1 where kf: "k \<noteq> f" and inv1: "walk_inv st0 f l st1 l1"
    by auto
  from inv1 dir have fl1: "fileList st1 = fileList st0" and u1: "unworked st1 = unworked st0"
    by (simp_all add: walk_inv_def)
  show ?case
  proof (cases "h = k")
    case False
    with Cons.prems(5) have "h \<in> set ts" by simp
    from Cons.IH [OF fl1 u1 ts' r' this] show ?thesis .
  next
    case True
    note len = unworked_fields(1) [OF u]
    from walk_targets_lt [OF x k] len have kN: "k < length (fileList st)" by simp
    from wl kN hl True have null: "work_of st k = WorkNull"
      by (simp add: work_list_def)
    let ?st1 = "set_work k (work_of st f) st"
    let ?st2 = "set_work f (WorkObj k) ?st1"
    let ?l2 = "ins_after f k l"
    have wl2: "work_list ?st2 ?l2"
      using wl f kN null by (rule work_list_insert)
    have u2: "unworked ?st2 = unworked st0" using u by simp
    have s2: "set ?l2 = insert k (set l)" using f by (rule set_ins_after)
    have cc: "checkCircWorkList ?st2 f = Inr 0"
      using wl2 by (rule checkCircWorkList_ok) (simp add: s2 f)
    have x2: "xrefs_ok ?st2" using x by (simp add: unworked_xrefs_ok [OF u2])
    have pre: "walk_pre n ?st2 k ?l2"
      using wl2 x2 fuel len by (simp add: walk_pre_def s2 length_ins_after [OF f])
    have b2: "\<not> walkBuildList ?st2"
      using dir unworked_fields(4) [OF u2] by simp
    have wr: "walk_ref (depwalk_rec n) f d k st =
        (case depwalk_rec n k (d + 1) ?st2 of
           Inl e \<Rightarrow> Inl e
         | Inr st3 \<Rightarrow>
             if \<not> walkBuildList st3
             then Inr (set_work k WorkNull (set_work f (work_of st3 k) st3))
             else Inr st3)"
      using kf null cc by (simp add: walk_ref_def Let_def)
    from w obtain st3 where rec: "depwalk_rec n k (d + 1) ?st2 = Inr st3"
      unfolding wr by (cases "depwalk_rec n k (d + 1) ?st2") simp_all
    have "(k, g) \<in> (unmarked_rel ?st2 (set ?l2))\<^sup>*"
      using hg True by (simp add: s2 unworked_unmarked_rel [OF u2])
    from IH [OF pre b2 rec this] have ng: "g \<notin> set (walk_targets ?st2 g)" .
    from kN len have "h < length (fileList st0)" using True by simp
    from unmarked_rel_lt [OF hg this x] have "g < length (fileList st0)" .
    from unworked_walk_targets [OF u2 this] ng show ?thesis by simp
  qed
qed

lemma direct_visits:
  "walk_pre n st f l \<Longrightarrow> \<not> walkBuildList st \<Longrightarrow> depwalk_rec n f d st = Inr st' \<Longrightarrow>
   (f, g) \<in> (unmarked_rel st (set l))\<^sup>* \<Longrightarrow> g \<notin> set (walk_targets st g)"
proof (induction n arbitrary: st f l d st' g)
  case 0
  then show ?case by simp
next
  case (Suc n)
  from Suc.prems(1) have wl: "work_list st l" and f: "f \<in> set l" and x: "xrefs_ok st"
    and fuel: "length (fileList st) < Suc n + length l"
    by (simp_all add: walk_pre_def)
  from depwalk_rec_post [OF Suc.prems(1), of d] Suc.prems(3)
  have nf: "f \<notin> set (walk_targets st f)"
    by (simp add: walk_post_def)
  show ?case
  proof (cases "g = f")
    case True
    with nf show ?thesis by simp
  next
    case False
    with Suc.prems(4) obtain h where fh: "(f, h) \<in> unmarked_rel st (set l)"
      and hg: "(h, g) \<in> (unmarked_rel st (set l))\<^sup>*"
      by (auto elim: converse_rtranclE)
    from hg have hg': "(h, g) \<in> (unmarked_rel st (insert h (set l)))\<^sup>*"
      by (rule unmarked_rel_start)
    from fh have ht: "h \<in> set (walk_targets st f)" and hl: "h \<notin> set l"
      by (simp_all add: unmarked_rel_def walk_rel_def)
    let ?st1 = "if depwalkAction st then depPrint f d st else st"
    have u1: "unworked ?st1 = unworked st" by simp
    have fl1: "fileList ?st1 = fileList st" by (simp add: depPrint_def)
    have t1: "walk_targets ?st1 = walk_targets st"
      by (simp add: walk_targets_def depPrint_def fun_eq_iff sym_importedFrom_def
          sym_exportedBy_def tfind_def)
    have b1: "\<not> walkBuildList ?st1" using Suc.prems(2) by (simp add: depPrint_def)
    have wl1: "work_list ?st1 l" using wl by (simp add: work_list_cong [OF fl1])
    have x1: "xrefs_ok ?st1" using x by (simp add: unworked_xrefs_ok [OF u1])
    have fuel1: "length (fileList ?st1) < Suc n + length l" using fuel by (simp add: fl1)
    have e: "foldE (walk_ref (depwalk_rec n) f d) (walk_targets ?st1 f) ?st1 = Inr st'"
      using Suc.prems(3) by (simp add: Let_def)
    have ht1: "h \<in> set (walk_targets ?st1 f)" using ht by (simp add: t1)
    have hg1: "(h, g) \<in> (unmarked_rel ?st1 (insert h (set l)))\<^sup>*"
      using hg' by (simp add: unworked_unmarked_rel [OF u1])
    from direct_loop [where n = n and d = d and st0 = ?st1 and st = ?st1, OF Suc.IH wl1 f x1
        fuel1 b1 refl refl subset_refl e ht1 hl hg1]
    have "g \<notin> set (walk_targets ?st1 g)" .
    then show ?thesis by (simp add: t1)
  qed
qed

lemma depwalk_cases:
  assumes c: "work_clear st" and fN: "f < length (fileList st)" and x: "xrefs_ok st"
    and nb: "\<not> walkBuildList st"
  shows "case depwalk st f action b e of
           Inl err \<Rightarrow>
             err = AssertFailed ''ref->obj != f'' \<and> self_target (st\<lparr>walkExports := e\<rparr>) \<and>
             self_target_from (st\<lparr>walkExports := e\<rparr>) f
         | Inr st' \<Rightarrow>
             \<not> self_target_from (st\<lparr>walkExports := e\<rparr>) f \<and>
             unworked st' =
               unworked (st\<lparr>walkBuildList := b, walkExports := e, depwalkAction := action\<rparr>) \<and>
             depwalkAction st' = action \<and>
             (if b
              then \<exists>l. work_list st' (f # l) \<and> set (f # l) = (mode_rel e st)\<^sup>* `` {f} \<and>
                       (\<forall>g\<in>set (f # l). g \<notin> set (walk_targets (st\<lparr>walkExports := e\<rparr>) g))
              else fileList st' = fileList st)"
proof -
  let ?a = "if b then False else action"
  let ?st1 = "st\<lparr>walkBuildList := b, walkExports := e, depwalkAction := ?a\<rparr>"
  let ?st2 = "set_work f BUSY ?st1"
  let ?N = "length (fileList st)"
  have w1g: "work_of (st\<lparr>walkBuildList := b', walkExports := e', depwalkAction := a'\<rparr>) = work_of st"
    for b' e' a'
    by (simp add: work_of_def fun_eq_iff)
  have w1: "work_of ?st1 = work_of st" by (rule w1g)
  have w2: "work_of ?st2 h = (if h = f then BUSY else work_of st h)" for h
    using fN by (simp add: work_of_set_work w1)
  have wl2: "work_list ?st2 [f]"
    using c fN by (auto simp: work_list_def w2 work_clear_def)
  have u2: "unworked ?st2 = unworked ?st1" by simp
  have x2: "xrefs_ok ?st2"
    using x by (simp add: unworked_xrefs_ok [OF u2]) (simp add: xrefs_ok_def tfind_def)
  have "walk_pre ?N ?st2 f [f]"
    using wl2 x2 by (simp add: walk_pre_def)
  then have post: "walk_post ?st2 f [f] (depwalk_rec ?N f 0 ?st2)"
    by (rule depwalk_rec_post)
  have wn: "work_of st f = WorkNull" using c fN by (simp add: work_clear_def)
  have dw: "depwalk st f action b e =
      (case depwalk_rec ?N f 0 ?st2 of
         Inl err \<Rightarrow> Inl err
       | Inr st3 \<Rightarrow>
           if walkBuildList st3 then Inr (st3\<lparr>depwalkAction := action\<rparr>)
           else Inr (set_work f WorkNull st3))"
    using wn nb by (simp add: depwalk_def Let_def)
  note m = unworked_mode_rel [OF u2]
  show ?thesis
  proof (cases "depwalk_rec ?N f 0 ?st2")
    case (Inl err)
    with post have er: "err = AssertFailed ''ref->obj != f''" and "self_target_from ?st2 f"
      by (simp_all add: walk_post_def)
    then have sf: "self_target_from (st\<lparr>walkExports := e\<rparr>) f"
      by (simp add: m(4))
    from er sf self_target_from_self_target [OF sf] show ?thesis
      unfolding dw Inl by simp
  next
    case (Inr st3)
    with post obtain l' where nf: "f \<notin> set (walk_targets ?st2 f)"
      and inv: "walk_inv ?st2 f [f] st3 l'"
      and tg: "walkBuildList ?st2 \<longrightarrow> set (walk_targets ?st2 f) \<subseteq> set l'"
      by (auto simp: walk_post_def)
    from inv have u3: "unworked st3 = unworked ?st2" and wl3: "work_list st3 l'"
      and hd3: "hd l' = f" and sub3: "f \<in> set l'"
      and nc3: "walkBuildList ?st2 \<longrightarrow> new_closed ?st2 f [f] l'"
      and dir3: "\<not> walkBuildList ?st2 \<longrightarrow> fileList st3 = fileList ?st2"
      by (simp_all add: walk_inv_def)
    have b3: "walkBuildList st3 = b"
      using unworked_fields(4) [OF u3] by (simp add: set_work_def obj_modify_def)
    have a3: "depwalkAction st3 = ?a"
      using unworked_fields(6) [OF u3] by (simp add: set_work_def obj_modify_def)
    have b2: "walkBuildList ?st2 = b" by (simp add: set_work_def obj_modify_def)
    show ?thesis
    proof (cases b)
      case True
      let ?st' = "st3\<lparr>depwalkAction := action\<rparr>"
      have r: "depwalk st f action b e = Inr ?st'"
        unfolding dw Inr using True b3 by simp
      have u: "unworked ?st' =
          unworked (st\<lparr>walkBuildList := b, walkExports := e, depwalkAction := action\<rparr>)"
      proof -
        have "unworked ?st' = (unworked st3)\<lparr>depwalkAction := action\<rparr>"
          by (simp add: unworked_def)
        also have "\<dots> = (unworked ?st1)\<lparr>depwalkAction := action\<rparr>"
          using u3 u2 by simp
        also have "\<dots> = unworked (st\<lparr>walkBuildList := b, walkExports := e, depwalkAction := action\<rparr>)"
          by (simp add: unworked_def)
        finally show ?thesis .
      qed
      from wl3 have "l' \<noteq> []" by (rule work_list_length)
      with hd3 obtain l where l: "l' = f # l" by (cases l') auto
      have "fileList ?st' = fileList st3" by simp
      from work_list_cong [OF this] wl3 l have wl': "work_list ?st' (f # l)"
        by simp
      have lt: "g < ?N" if "g \<in> set l'" for g
        using wl3 that unworked_fields(1) [OF u3] by (auto simp: work_list_def)
      have t2: "walk_targets ?st2 g = walk_targets (st\<lparr>walkExports := e\<rparr>) g" if "g \<in> set l'" for g
        using m(2) [OF lt [OF that]] .
      from nc3 True b2 have nc: "new_closed ?st2 f [f] l'" by simp
      have closed: "\<forall>g\<in>set l'. \<forall>h. (g, h) \<in> mode_rel e st \<longrightarrow> h \<in> set l'"
      proof (intro ballI allI impI)
        fix g h assume g: "g \<in> set l'" and gh: "(g, h) \<in> mode_rel e st"
        then have h: "h \<in> set (walk_targets ?st2 g)"
          using t2 [OF g] by (simp add: mode_rel_def walk_rel_def)
        show "h \<in> set l'"
        proof (cases "g = f")
          case True
          with h tg b2 \<open>b\<close> show ?thesis by auto
        next
          case False
          with g nc have "set (walk_targets ?st2 g) \<subseteq> set l'"
            by (simp add: new_closed_def)
          with h show ?thesis by blast
        qed
      qed
      have "set l' = (mode_rel e st)\<^sup>* `` {f}"
      proof (intro equalityI subsetI)
        fix g assume g: "g \<in> set l'"
        show "g \<in> (mode_rel e st)\<^sup>* `` {f}"
        proof (cases "g = f")
          case True
          then show ?thesis by simp
        next
          case False
          with g nc have "(f, g) \<in> (walk_rel ?st2)\<^sup>+" by (simp add: new_closed_def)
          then show ?thesis unfolding m(1) by (auto intro: trancl_into_rtrancl)
        qed
      next
        fix g assume "g \<in> (mode_rel e st)\<^sup>* `` {f}"
        then have "(f, g) \<in> (mode_rel e st)\<^sup>*" by simp
        with sub3 closed show "g \<in> set l'" by (rule closed_reach)
      qed
      moreover have "\<forall>g\<in>set l'. g \<notin> set (walk_targets (st\<lparr>walkExports := e\<rparr>) g)"
      proof
        fix g assume g: "g \<in> set l'"
        show "g \<notin> set (walk_targets (st\<lparr>walkExports := e\<rparr>) g)"
        proof (cases "g = f")
          case True
          with nf t2 [OF g] show ?thesis by simp
        next
          case False
          with g nc have "g \<notin> set (walk_targets ?st2 g)"
            by (simp add: new_closed_def)
          then show ?thesis unfolding t2 [OF g] .
        qed
      qed
      moreover have "\<not> self_target_from (st\<lparr>walkExports := e\<rparr>) f"
      proof
        assume "self_target_from (st\<lparr>walkExports := e\<rparr>) f"
        then obtain g where fg: "(f, g) \<in> (mode_rel e st)\<^sup>*"
          and g: "g \<in> set (walk_targets (st\<lparr>walkExports := e\<rparr>) g)"
          unfolding self_target_from_def mode_rel_def by blast
        from sub3 closed fg have "g \<in> set l'" by (rule closed_reach)
        show False
        proof (cases "g = f")
          case True
          with nf t2 [OF \<open>g \<in> set l'\<close>] g show ?thesis by simp
        next
          case False
          with \<open>g \<in> set l'\<close> nc have "g \<notin> set (walk_targets ?st2 g)"
            by (simp add: new_closed_def)
          with t2 [OF \<open>g \<in> set l'\<close>] g show ?thesis by simp
        qed
      qed
      ultimately have "\<exists>l. work_list ?st' (f # l) \<and> set (f # l) = (mode_rel e st)\<^sup>* `` {f} \<and>
          (\<forall>g\<in>set (f # l). g \<notin> set (walk_targets (st\<lparr>walkExports := e\<rparr>) g))"
        and ns: "\<not> self_target_from (st\<lparr>walkExports := e\<rparr>) f"
        using wl' l by blast+
      with u show ?thesis
        unfolding r using True by simp
    next
      case False
      let ?st' = "set_work f WorkNull st3"
      have r: "depwalk st f action b e = Inr ?st'"
        unfolding dw Inr using False b3 by simp
      from dir3 False b2 have fl3: "fileList st3 = fileList ?st2" by simp
      then have w3: "work_of st3 = work_of ?st2" by (simp add: work_of_def fun_eq_iff)
      have l3: "length (fileList st3) = ?N" using fl3 by simp
      have "\<forall>h<?N. work_of ?st' h = work_of st h"
        using wn fN by (auto simp: work_of_set_work l3 w3 w1g)
      moreover have u: "unworked ?st' = unworked ?st1" using u3 u2 by simp
      moreover have "unworked ?st1 = (unworked st)\<lparr>walkBuildList := b, walkExports := e, depwalkAction := ?a\<rparr>"
        by (simp add: unworked_def)
      ultimately have "fileList ?st' = fileList st"
      proof -
        have "fileList ?st' = fileList ?st1"
        proof (rule unworked_eq_fileList [OF u])
          show "\<forall>h<length (fileList ?st1). work_of ?st' h = work_of ?st1 h"
            using \<open>\<forall>h<?N. work_of ?st' h = work_of st h\<close> by (simp add: w1)
        qed
        then show ?thesis by simp
      qed
      moreover have "depwalkAction ?st' = action"
        using a3 False by (simp add: set_work_def obj_modify_def)
      moreover have "\<not> self_target_from (st\<lparr>walkExports := e\<rparr>) f"
      proof
        assume "self_target_from (st\<lparr>walkExports := e\<rparr>) f"
        then have "self_target_from ?st2 f" by (simp add: m(4))
        then obtain g where fg: "(f, g) \<in> (walk_rel ?st2)\<^sup>*"
          and g: "g \<in> set (walk_targets ?st2 g)"
          by (auto simp: self_target_from_def)
        have "unmarked_rel ?st2 {} = walk_rel ?st2" by (simp add: unmarked_rel_def)
        with fg have "(f, g) \<in> (unmarked_rel ?st2 {})\<^sup>*" by simp
        then have "(f, g) \<in> (unmarked_rel ?st2 (set [f]))\<^sup>*"
          using unmarked_rel_start [of f g ?st2 "{}"] by simp
        from direct_visits [OF \<open>walk_pre ?N ?st2 f [f]\<close> _ Inr this] False b2 g
        show False by simp
      qed
      ultimately show ?thesis
        unfolding r using False u by simp
    qed
  qed
qed


subsection \<open>Releasing the work list\<close>

lemma release_loop_chain:
  "chain (work_of st) (x # l) \<Longrightarrow> distinct (x # l) \<Longrightarrow>
   \<forall>g\<in>set (x # l). g < length (fileList st) \<Longrightarrow> length l < fuel \<Longrightarrow>
   \<exists>st'. release_loop fuel x st = Inr st' \<and> unworked st' = unworked st \<and>
     (\<forall>h<length (fileList st).
        work_of st' h = (if h \<in> set (x # l) then WorkNull else work_of st h))"
proof (induction l arbitrary: x fuel st)
  case Nil
  then obtain n where n: "fuel = Suc n" by (cases fuel) auto
  from Nil.prems have "work_of st x = BUSY" by simp
  with n Nil.prems(3) show ?case
    by (auto simp: Let_def work_of_set_work)
next
  case (Cons y l)
  then obtain n where n: "fuel = Suc n" by (cases fuel) auto
  let ?st1 = "set_work x WorkNull st"
  from Cons.prems(1) have wx: "work_of st x = WorkObj y" and c: "chain (work_of st) (y # l)"
    by simp_all
  from Cons.prems(2) have "\<forall>z\<in>set (y # l). work_of ?st1 z = work_of st z"
    by (auto simp: work_of_set_work)
  then have "chain (work_of ?st1) (y # l) = chain (work_of st) (y # l)"
    by (rule chain_cong)
  with c have c1: "chain (work_of ?st1) (y # l)" by simp
  from Cons.prems(2) have d1: "distinct (y # l)" by simp
  from Cons.prems(3) have b1: "\<forall>g\<in>set (y # l). g < length (fileList ?st1)" by simp
  from Cons.prems(4) n have f1: "length l < n" by simp
  from Cons.IH [OF c1 d1 b1 f1] obtain st' where
    r: "release_loop n y ?st1 = Inr st'" and u: "unworked st' = unworked ?st1"
    and w: "\<forall>h<length (fileList ?st1).
        work_of st' h = (if h \<in> set (y # l) then WorkNull else work_of ?st1 h)"
    by blast
  have "release_loop fuel x st = Inr st'"
    using n wx r by (simp add: Let_def)
  moreover have "unworked st' = unworked st" using u by simp
  moreover have "\<forall>h<length (fileList st).
        work_of st' h = (if h \<in> set (x # y # l) then WorkNull else work_of st h)"
    using w Cons.prems(3) by (auto simp: work_of_set_work)
  ultimately show ?case by blast
qed

lemma workListRelease_clears:
  assumes "work_list st (f # l)"
  shows "\<exists>st'. workListRelease f st = Inr st' \<and> unworked st' = unworked st \<and> work_clear st'"
proof -
  from assms have c: "chain (work_of st) (f # l)" and d: "distinct (f # l)"
    and b: "\<forall>g\<in>set (f # l). g < length (fileList st)"
    and o: "\<forall>g<length (fileList st). g \<notin> set (f # l) \<longrightarrow> work_of st g = WorkNull"
    by (simp_all add: work_list_def)
  from work_list_length(1) [OF assms] have "length l < Suc (length (fileList st))" by simp
  from release_loop_chain [OF c d b this] obtain st' where
    r: "release_loop (Suc (length (fileList st))) f st = Inr st'"
    and u: "unworked st' = unworked st"
    and w: "\<forall>h<length (fileList st).
        work_of st' h = (if h \<in> set (f # l) then WorkNull else work_of st h)"
    by blast
  from w o have "work_clear st'"
    by (simp add: work_clear_def unworked_fields(1) [OF u])
  with r u show ?thesis by (auto simp: workListRelease_def)
qed

lemma foldE_pure: "foldE (\<lambda>x s. Inr (g x s)) xs s = Inr (fold g xs s)"
  by (induction xs arbitrary: s) simp_all

lemma foldE_pure_pair:
  "foldE (\<lambda>(a, b) s. Inr (g a b s)) zs s = Inr (fold (\<lambda>(a, b). g a b) zs s)"
  by (induction zs arbitrary: s) auto

lemma fold_depPrint:
  "fileList (fold (\<lambda>(g, depth). depPrint g depth) zs st) = fileList st \<and>
   unworked (fold (\<lambda>(g, depth). depPrint g depth) zs st) = unworked st"
proof (induction zs arbitrary: st)
  case Nil
  then show ?case by simp
next
  case (Cons z zs)
  obtain g d where z: "z = (g, d)" by (cases z)
  have "fileList (depPrint g d st) = fileList st" by (simp add: depPrint_def)
  with Cons [of "depPrint g d st"] z show ?case by simp
qed

lemma workList_work_list:
  assumes "work_list st (f # l)"
  shows "workList (length (fileList st)) st (WorkObj f) = Some (f # l)"
proof -
  from assms have c: "chain (work_of st) (f # l)" by (simp add: work_list_def)
  from work_list_length(1) [OF assms] have "length l < length (fileList st)" by simp
  with c show ?thesis by (rule workList_chain)
qed

lemma depwalkListRelease_clears:
  assumes "work_list st (f # l)" and "walkBuildList st"
  shows "\<exists>st'. depwalkListRelease f st = Inr st' \<and> work_clear st' \<and>
           fileList (unworked st') = fileList (unworked st) \<and>
           symTbl st' = symTbl st \<and> linkSet st' = linkSet st \<and> \<not> walkBuildList st'"
proof -
  let ?p = "\<lambda>(g, depth). depPrint g depth"
  let ?zs = "zip (f # l) [0..<length (f # l)]"
  let ?st1 = "if depwalkAction st then fold ?p ?zs st else st"
  have it: "(if depwalkAction st
            then workListIterate st f (\<lambda>g depth s. Inr (depPrint g depth s)) st
            else Inr st) = Inr ?st1"
    unfolding workListIterate_def workList_work_list [OF assms(1)] option.case
      foldE_pure_pair by simp
  have fl1: "fileList ?st1 = fileList st" and u1: "unworked ?st1 = unworked st"
    using fold_depPrint [of ?zs st] by auto
  have "work_list ?st1 (f # l)"
    using assms(1) by (simp add: work_list_cong [OF fl1])
  from workListRelease_clears [OF this] obtain st2 where
    r: "workListRelease f ?st1 = Inr st2" and u2: "unworked st2 = unworked ?st1"
    and c2: "work_clear st2"
    by blast
  let ?st' = "st2\<lparr>walkBuildList := False, walkExports := False\<rparr>"
  have "depwalkListRelease f st = Inr ?st'"
    using assms(2) r by (simp add: depwalkListRelease_def it)
  moreover have "work_clear ?st'"
    using c2 by (simp add: work_clear_def work_of_def)
  moreover have "fileList (unworked ?st') = fileList (unworked st)"
  proof -
    have "fileList (unworked ?st') = fileList (unworked st2)"
      by (simp add: unworked_def)
    with u2 u1 show ?thesis by simp
  qed
  moreover have "symTbl ?st' = symTbl st" "linkSet ?st' = linkSet st"
    using unworked_fields(2,3) [OF u2] unworked_fields(2,3) [OF u1] by simp_all
  ultimately show ?thesis by auto
qed


subsection \<open>Checking the preconditions of a traversal\<close>

lemma work_clear_code:
  "work_clear st = list_all (\<lambda>d. work d = WorkNull) (fileList st)"
  by (simp add: work_clear_def work_of_def list_all_length)

lemma xrefs_ok_code:
  assumes "list_all (\<lambda>(n, s). list_all (\<lambda>r. xref_obj r < length (fileList st))
                                (exportedBy s @ importedFrom s)) (symTbl st)"
  shows "xrefs_ok st"
  unfolding xrefs_ok_def
proof (intro allI impI ballI)
  fix n s r
  assume "tfind st n = Some s" and r: "r \<in> set (exportedBy s) \<union> set (importedFrom s)"
  then have "(n, s) \<in> set (symTbl st)"
    by (simp add: tfind_def map_of_SomeD)
  with assms have "list_all (\<lambda>r. xref_obj r < length (fileList st)) (exportedBy s @ importedFrom s)"
    by (auto simp: list_all_iff)
  with r show "xref_obj r < length (fileList st)"
    by (auto simp: list_all_iff)
qed

lemma ball_upt: "(\<forall>f\<in>set [0..<n]. P f) \<longleftrightarrow> (\<forall>f<n. P f)"
  by auto

lemma no_self_reference_code:
  "no_self_reference st =
     list_all (\<lambda>f.
        list_all (\<lambda>c. list_all (\<lambda>r. xref_obj r \<noteq> f) (sym_importedFrom st (xsym c)))
          (obj_exports (fileList st ! f)) \<and>
        list_all (\<lambda>c. list_all (\<lambda>r. xref_obj r \<noteq> f) (take 1 (sym_exportedBy st (xsym c))))
          (obj_imports (fileList st ! f)))
       [0..<length (fileList st)]"
  unfolding no_self_reference_def list_all_iff ball_upt by (rule refl)

lemma example_cycle_linked:
  "work_clear (linked example_cycle)"
  "xrefs_ok (linked example_cycle)"
  "no_self_reference (linked example_cycle)"
  "\<not> walkBuildList (linked example_cycle)"
  "length (fileList (linked example_cycle)) = 3"
proof -
  show "work_clear (linked example_cycle)"
    unfolding work_clear_code by code_simp
  show "xrefs_ok (linked example_cycle)"
    by (rule xrefs_ok_code) code_simp
  show "no_self_reference (linked example_cycle)"
    unfolding no_self_reference_code by code_simp
  show "\<not> walkBuildList (linked example_cycle)" by code_simp
  show "length (fileList (linked example_cycle)) = 3" by code_simp
qed


subsection \<open>The work slots after a traversal\<close>

text \<open>
  C6. Let all \<open>work\<close> slots be null, \<open>f\<close> an object of the list, the chains of the symbols
  point to objects of the list, and no work list be pending. For either action and
  either direction of the walk: \<open>depwalk\<close> without \<open>WALK_BUILD_LIST\<close> either fails the
  assertion \<open>ref->obj != f\<close> or returns with all \<open>work\<close> slots null (the object list is
  the one it was); \<open>depwalk\<close> with \<open>WALK_BUILD_LIST\<close> either fails that assertion or
  returns a state in which \<open>depwalkListRelease(f)\<close> returns with all \<open>work\<close> slots null.
  The traversal does return when no object is among the targets of its own expansion.
\<close>

theorem work_slots_nil_after_walk:
  assumes "work_clear st" and "f < length (fileList st)" and "xrefs_ok st"
    and "\<not> walkBuildList st"
  shows
    "(case depwalk st f action False do_exports of
        Inl err \<Rightarrow> err = AssertFailed ''ref->obj != f''
      | Inr st' \<Rightarrow> work_clear st' \<and> fileList st' = fileList st) \<and>
     (case depwalk st f action True do_exports of
        Inl err \<Rightarrow> err = AssertFailed ''ref->obj != f''
      | Inr st1 \<Rightarrow> (\<exists>st2. depwalkListRelease f st1 = Inr st2 \<and> work_clear st2)) \<and>
     (\<not> self_target (st\<lparr>walkExports := do_exports\<rparr>) \<longrightarrow>
        (\<exists>st'. depwalk st f action build_list do_exports = Inr st'))"
proof (intro conjI)
  note d = depwalk_cases [OF assms]
  show "case depwalk st f action False do_exports of
          Inl err \<Rightarrow> err = AssertFailed ''ref->obj != f''
        | Inr st' \<Rightarrow> work_clear st' \<and> fileList st' = fileList st"
  proof (cases "depwalk st f action False do_exports")
    case (Inl err)
    with d [where action = action and b = False and e = do_exports] show ?thesis by simp
  next
    case (Inr st')
    with d [where action = action and b = False and e = do_exports] have "fileList st' = fileList st" by simp
    with assms(1) show ?thesis
      by (simp add: Inr work_clear_def work_of_def)
  qed
  show "case depwalk st f action True do_exports of
          Inl err \<Rightarrow> err = AssertFailed ''ref->obj != f''
        | Inr st1 \<Rightarrow> (\<exists>st2. depwalkListRelease f st1 = Inr st2 \<and> work_clear st2)"
  proof (cases "depwalk st f action True do_exports")
    case (Inl err)
    with d [where action = action and b = True and e = do_exports] show ?thesis by simp
  next
    case (Inr st1)
    with d [where action = action and b = True and e = do_exports] obtain l where
      u: "unworked st1 =
            unworked (st\<lparr>walkBuildList := True, walkExports := do_exports, depwalkAction := action\<rparr>)"
      and wl: "work_list st1 (f # l)"
      by auto
    from unworked_fields(4) [OF u] have "walkBuildList st1" by simp
    from depwalkListRelease_clears [OF wl this] show ?thesis
      by (auto simp: Inr)
  qed
  show "\<not> self_target (st\<lparr>walkExports := do_exports\<rparr>) \<longrightarrow>
        (\<exists>st'. depwalk st f action build_list do_exports = Inr st')"
    using d [where action = action and b = build_list and e = do_exports]
    by (cases "depwalk st f action build_list do_exports") auto
qed

theorem work_slots_nil_after_walk_witness:
  "work_clear (linked example_cycle) \<and>
   (case depwalk (linked example_cycle) 1 True False True of
      Inl err \<Rightarrow> False
    | Inr st' \<Rightarrow> printed st' = [(1, 0), (2, 1)] \<and> work_clear st') \<and>
   (case depwalk (linked example_cycle) 2 True True False of
      Inl err \<Rightarrow> False
    | Inr st1 \<Rightarrow> work_of st1 2 = WorkObj 1 \<and> work_of st1 1 = BUSY \<and>
        (\<exists>st2. depwalkListRelease 2 st1 = Inr st2 \<and> work_clear st2))"
proof -
  let ?st = "linked example_cycle"
  note e = example_cycle_linked
  have 1: "1 < length (fileList ?st)" and 2: "2 < length (fileList ?st)"
    by (simp_all add: e(5))
  have a: "case depwalk ?st 1 True False True of
      Inl err \<Rightarrow> False | Inr st' \<Rightarrow> printed st' = [(1, 0), (2, 1)]"
    by code_simp
  have b: "case depwalk ?st 2 True True False of
      Inl err \<Rightarrow> False | Inr st1 \<Rightarrow> work_of st1 2 = WorkObj 1 \<and> work_of st1 1 = BUSY"
    by code_simp
  from work_slots_nil_after_walk [OF e(1) 1 e(2) e(4), of True True True, THEN conjunct1] a
  have "case depwalk ?st 1 True False True of
      Inl err \<Rightarrow> False | Inr st' \<Rightarrow> printed st' = [(1, 0), (2, 1)] \<and> work_clear st'"
    by (simp split: sum.splits)
  moreover
  from work_slots_nil_after_walk [OF e(1) 2 e(2) e(4), of True False True,
      THEN conjunct2, THEN conjunct1] b
  have "case depwalk ?st 2 True True False of
      Inl err \<Rightarrow> False
    | Inr st1 \<Rightarrow> work_of st1 2 = WorkObj 1 \<and> work_of st1 1 = BUSY \<and>
        (\<exists>st2. depwalkListRelease 2 st1 = Inr st2 \<and> work_clear st2)"
    by (simp split: sum.splits)
  ultimately show ?thesis using e(1) by simp
qed

subsection \<open>The assertion \<open>ref->obj != f\<close>\<close>






subsection \<open>Unlinking\<close>




















end
